theory Spec2Isabelle
  imports Complex_Main
begin

section \<open>Values and the object heap\<close>

text \<open>
  The engine of \<^verbatim>\<open>src/homework/homework-2.ts\<close> compares JavaScript values.  Arrays and
  objects are reference values: the guard of the engine (a \<^verbatim>\<open>WeakSet\<close>) and the operator
  \<^verbatim>\<open>===\<close> see their identity, and an object may refer to itself.  So a composite value is
  an address into a heap, and the heap is a finite list of objects, the address being the
  position in the list.  The engine never writes to the heap.
\<close>

type_synonym addr = nat

text \<open>
  A number is compared by \<^verbatim>\<open>===\<close> only: what matters of an IEEE double is that \<^verbatim>\<open>NaN\<close>
  differs from every number, itself included, and that any other number equals itself
  (\<^verbatim>\<open>+0\<close> and \<^verbatim>\<open>-0\<close> are one number for \<^verbatim>\<open>===\<close>).
\<close>

datatype number = NaN | PosInfinity | NegInfinity | Finite rat

text \<open>
  \<^verbatim>\<open>type TPrimitive = null | undefined | boolean | number | string | symbol | bigint\<close>,
  \<^verbatim>\<open>type TValue = TPrimitive | TValue[] | object\<close>.  A symbol and a function are known by
  their identity (a natural number); a function is an \<^verbatim>\<open>object\<close> for the type checker, but
  \<^verbatim>\<open>typeof\<close> gives \<^verbatim>\<open>'function'\<close> for it and the engine never looks inside.
\<close>

datatype val =
    VNull
  | VUndefined
  | VBoolean bool
  | VNumber number
  | VString string
  | VSymbol nat
  | VBigInt int
  | VFunction nat
  | VRef addr

text \<open>
  An array is the list of its slots, \<^verbatim>\<open>a.length\<close> of them: a slot holds an element, or is a
  hole of a sparse array (\<open>None\<close>; \<^verbatim>\<open>new Array(1)\<close> and \<^verbatim>\<open>[ , 7]\<close> have a hole at index
  \<open>0\<close>), which is not the same as holding \<^verbatim>\<open>undefined\<close>.  A plain object is the list of
  its own enumerable string-keyed properties, in the order of \<^verbatim>\<open>Object.keys\<close>.
\<close>

datatype obj = JSArray "val option list" | JSObject "(string \<times> val) list"

type_synonym heap = "obj list"

text \<open>
  A reference of a running program always points to an object.  The lookup is total: an
  address outside the heap reads as an object without properties.
\<close>

definition heap_at :: "heap \<Rightarrow> addr \<Rightarrow> obj" where
  "heap_at h r = (if r < length h then h ! r else JSObject [])"

datatype jstype =
  T_undefined | T_object | T_boolean | T_number | T_string | T_symbol | T_bigint | T_function

fun typeof :: "val \<Rightarrow> jstype" where
  "typeof VNull = T_object"
| "typeof VUndefined = T_undefined"
| "typeof (VBoolean _) = T_boolean"
| "typeof (VNumber _) = T_number"
| "typeof (VString _) = T_string"
| "typeof (VSymbol _) = T_symbol"
| "typeof (VBigInt _) = T_bigint"
| "typeof (VFunction _) = T_function"
| "typeof (VRef _) = T_object"

text \<open>\<^verbatim>\<open>value == null\<close>: true of \<^verbatim>\<open>null\<close> and of \<^verbatim>\<open>undefined\<close>.\<close>

definition loose_null :: "val \<Rightarrow> bool" where
  "loose_null v \<longleftrightarrow> v = VNull \<or> v = VUndefined"

text \<open>\<^verbatim>\<open>a === b\<close>: the same type and the same value (the same reference for an object), and
  never true of \<^verbatim>\<open>NaN\<close>.\<close>

definition strict_equal :: "val \<Rightarrow> val \<Rightarrow> bool" where
  "strict_equal a b \<longleftrightarrow> a = b \<and> a \<noteq> VNumber NaN"

text \<open>\<^verbatim>\<open>Array.isArray(value)\<close>.\<close>

definition isArray :: "heap \<Rightarrow> val \<Rightarrow> bool" where
  "isArray h v =
     (case v of
        VRef r \<Rightarrow> (case heap_at h r of JSArray _ \<Rightarrow> True | JSObject _ \<Rightarrow> False)
      | _ \<Rightarrow> False)"

text \<open>The slots of an array value (\<^verbatim>\<open>a.length\<close> is the length of this list).\<close>

definition elements :: "heap \<Rightarrow> val \<Rightarrow> val option list" where
  "elements h v =
     (case v of
        VRef r \<Rightarrow> (case heap_at h r of JSArray xs \<Rightarrow> xs | JSObject _ \<Rightarrow> [])
      | _ \<Rightarrow> [])"

text \<open>\<^verbatim>\<open>b[index]\<close>: reading a hole, or past the end, gives \<^verbatim>\<open>undefined\<close>.\<close>

definition index_get :: "val option list \<Rightarrow> nat \<Rightarrow> val" where
  "index_get xs i =
     (if i < length xs then (case xs ! i of None \<Rightarrow> VUndefined | Some x \<Rightarrow> x) else VUndefined)"

text \<open>
  The pairs \<open>(item, index)\<close> on which \<^verbatim>\<open>a.every(callback)\<close> runs its callback: the indices
  from \<open>0\<close> to \<^verbatim>\<open>a.length - 1\<close> in increasing order, the holes left out
  (\<^verbatim>\<open>Array.prototype.every\<close> does not call back on a missing index).
\<close>

definition entries :: "val option list \<Rightarrow> (val \<times> nat) list" where
  "entries xs =
     concat (map (\<lambda>(slot, index). case slot of None \<Rightarrow> [] | Some item \<Rightarrow> [(item, index)])
       (zip xs [0 ..< length xs]))"

text \<open>
  The own properties of a plain object.  \<^verbatim>\<open>ObjectComparator.compare\<close> reads the keys of
  its operands only after \<^verbatim>\<open>canHandle\<close> and its own check of \<^verbatim>\<open>b\<close> have found both to be
  objects that are not arrays.
\<close>

definition properties :: "heap \<Rightarrow> val \<Rightarrow> (string \<times> val) list" where
  "properties h v =
     (case v of
        VRef r \<Rightarrow> (case heap_at h r of JSObject ps \<Rightarrow> ps | JSArray _ \<Rightarrow> [])
      | _ \<Rightarrow> [])"

text \<open>\<^verbatim>\<open>Object.keys(a)\<close>.\<close>

definition object_keys :: "heap \<Rightarrow> val \<Rightarrow> string list" where
  "object_keys h v = map fst (properties h v)"

text \<open>\<^verbatim>\<open>a[key]\<close>: a property that is absent reads as \<^verbatim>\<open>undefined\<close>.\<close>

definition property_get :: "heap \<Rightarrow> val \<Rightarrow> string \<Rightarrow> val" where
  "property_get h v key =
     (case map_of (properties h v) key of None \<Rightarrow> VUndefined | Some x \<Rightarrow> x)"

section \<open>Outcomes, the guard set and \<^verbatim>\<open>every\<close>\<close>

text \<open>
  The one error of the engine is the \<^verbatim>\<open>Error\<close> thrown when no comparator is found.  A call
  returns a boolean or throws, and leaves a guard set behind; \<open>None\<close> is a call that
  has not returned within the recursion depth allowed to it.
\<close>

datatype error = NoComparatorFound

type_synonym outcome = "((error + bool) \<times> addr set) option"

type_synonym recursion = "val \<Rightarrow> val \<Rightarrow> addr set \<Rightarrow> outcome"

text \<open>
  \<^verbatim>\<open>xs.every(callback)\<close>, the callback running on the guard set of the engine: it stops
  at the first element whose callback returns \<^verbatim>\<open>false\<close> or throws.
\<close>

fun every :: "('a \<Rightarrow> addr set \<Rightarrow> outcome) \<Rightarrow> 'a list \<Rightarrow> addr set \<Rightarrow> outcome" where
  "every f [] vis = Some (Inr True, vis)"
| "every f (x # xs) vis =
     (case f x vis of
        None \<Rightarrow> None
      | Some (Inl e, vis') \<Rightarrow> Some (Inl e, vis')
      | Some (Inr False, vis') \<Rightarrow> Some (Inr False, vis')
      | Some (Inr True, vis') \<Rightarrow> every f xs vis')"

section \<open>The comparators\<close>

text \<open>
  The three comparators of the source, and a comparator registered by a caller: a shape
  predicate and an equality function of its own, both functions of the heap and of the
  operands (a registered comparator is stateless, does not throw and does not call the
  engine back).
\<close>

datatype comparator =
    PrimitiveComparator
  | ArrayComparator
  | ObjectComparator
  | CustomComparator "heap \<Rightarrow> val \<Rightarrow> bool" "heap \<Rightarrow> val \<Rightarrow> val \<Rightarrow> bool"

definition PrimitiveComparator_canHandle :: "val \<Rightarrow> bool" where
  "PrimitiveComparator_canHandle v \<longleftrightarrow> loose_null v \<or> typeof v \<noteq> T_object"

definition PrimitiveComparator_compare :: "val \<Rightarrow> val \<Rightarrow> bool" where
  "PrimitiveComparator_compare a b = strict_equal a b"

definition ArrayComparator_canHandle :: "heap \<Rightarrow> val \<Rightarrow> bool" where
  "ArrayComparator_canHandle h v = isArray h v"

definition ArrayComparator_compare :: "heap \<Rightarrow> recursion \<Rightarrow> val \<Rightarrow> val \<Rightarrow> addr set \<Rightarrow> outcome" where
  "ArrayComparator_compare h ctx a b vis =
     (if \<not> isArray h b \<or> length (elements h a) \<noteq> length (elements h b)
      then Some (Inr False, vis)
      else every (\<lambda>(item, index). ctx item (index_get (elements h b) index))
             (entries (elements h a)) vis)"

definition ObjectComparator_canHandle :: "heap \<Rightarrow> val \<Rightarrow> bool" where
  "ObjectComparator_canHandle h v \<longleftrightarrow>
     \<not> loose_null v \<and> typeof v = T_object \<and> \<not> isArray h v"

definition ObjectComparator_compare :: "heap \<Rightarrow> recursion \<Rightarrow> val \<Rightarrow> val \<Rightarrow> addr set \<Rightarrow> outcome" where
  "ObjectComparator_compare h ctx a b vis =
     (if typeof b \<noteq> T_object \<or> loose_null b \<or> isArray h b
      then Some (Inr False, vis)
      else
        let keysA = object_keys h a; keysB = object_keys h b in
        if length keysA \<noteq> length keysB
        then Some (Inr False, vis)
        else every (\<lambda>key vis'.
                 if key \<in> set keysB
                 then ctx (property_get h a key) (property_get h b key) vis'
                 else Some (Inr False, vis'))
               keysA vis)"

fun canHandle :: "comparator \<Rightarrow> heap \<Rightarrow> val \<Rightarrow> bool" where
  "canHandle PrimitiveComparator h v = PrimitiveComparator_canHandle v"
| "canHandle ArrayComparator h v = ArrayComparator_canHandle h v"
| "canHandle ObjectComparator h v = ObjectComparator_canHandle h v"
| "canHandle (CustomComparator accepts equal) h v = accepts h v"

fun compare :: "comparator \<Rightarrow> heap \<Rightarrow> recursion \<Rightarrow> val \<Rightarrow> val \<Rightarrow> addr set \<Rightarrow> outcome" where
  "compare PrimitiveComparator h ctx a b vis = Some (Inr (PrimitiveComparator_compare a b), vis)"
| "compare ArrayComparator h ctx a b vis = ArrayComparator_compare h ctx a b vis"
| "compare ObjectComparator h ctx a b vis = ObjectComparator_compare h ctx a b vis"
| "compare (CustomComparator accepts equal) h ctx a b vis = Some (Inr (equal h a b), vis)"

section \<open>The engine\<close>

text \<open>\<^verbatim>\<open>this.comparators.find(comp => comp.canHandle(value))\<close>.\<close>

definition findComparator :: "comparator list \<Rightarrow> heap \<Rightarrow> val \<Rightarrow> comparator option" where
  "findComparator cs h v = find (\<lambda>comp. canHandle comp h v) cs"

text \<open>
  The guard set is a \<^verbatim>\<open>WeakSet\<close>: it holds objects by identity.  \<^verbatim>\<open>visited.has(a)\<close> and
  \<^verbatim>\<open>visited.add(a)\<close> are only called on a value that is an object.
\<close>

definition WeakSet_has :: "addr set \<Rightarrow> val \<Rightarrow> bool" where
  "WeakSet_has vis v = (case v of VRef r \<Rightarrow> r \<in> vis | _ \<Rightarrow> False)"

definition WeakSet_add :: "addr set \<Rightarrow> val \<Rightarrow> addr set" where
  "WeakSet_add vis v = (case v of VRef r \<Rightarrow> insert r vis | _ \<Rightarrow> vis)"

text \<open>
  \<^verbatim>\<open>deepEqual(a, b)\<close> on the comparators \<open>cs\<close> and the guard set \<open>vis\<close>.  The first
  argument bounds the depth of the recursion: a comparator calls the engine back with
  one level less, and at depth \<open>0\<close> the call does not return.
\<close>

primrec deepEqual :: "nat \<Rightarrow> heap \<Rightarrow> comparator list \<Rightarrow> val \<Rightarrow> val \<Rightarrow> addr set \<Rightarrow> outcome" where
  "deepEqual 0 h cs a b vis = None"
| "deepEqual (Suc n) h cs a b vis =
     (let composite = (typeof a = T_object \<and> a \<noteq> VNull) in
      if composite \<and> WeakSet_has vis a
      then Some (Inr (strict_equal a b), vis)
      else
        let vis' = (if composite then WeakSet_add vis a else vis) in
        case findComparator cs h a of
          None \<Rightarrow> Some (Inl NoComparatorFound, vis')
        | Some comparator \<Rightarrow> compare comparator h (deepEqual n h cs) a b vis')"

text \<open>The engine object: its comparators and its guard set.\<close>

record engine =
  comparators :: "comparator list"
  visited :: "addr set"

definition new_engine :: engine where
  "new_engine =
     \<lparr>comparators = [PrimitiveComparator, ArrayComparator, ObjectComparator], visited = {}\<rparr>"

definition addComparator :: "engine \<Rightarrow> comparator \<Rightarrow> engine" where
  "addComparator e c = e\<lparr>comparators := c # comparators e\<rparr>"

text \<open>A top-level call on an engine: the guard set it leaves is the engine's from then on.\<close>

definition engine_deepEqual ::
  "nat \<Rightarrow> heap \<Rightarrow> engine \<Rightarrow> val \<Rightarrow> val \<Rightarrow> ((error + bool) \<times> engine) option" where
  "engine_deepEqual n h e a b =
     (case deepEqual n h (comparators e) a b (visited e) of
        None \<Rightarrow> None
      | Some (res, vis') \<Rightarrow> Some (res, e\<lparr>visited := vis'\<rparr>))"


section \<open>Notions used to state and to prove the properties\<close>

text \<open>
  The values a composite value holds, in the order in which the comparators walk them:
  the elements of an array (its holes hold nothing), the property values of an object in
  the order of its keys.
\<close>

definition children :: "heap \<Rightarrow> val \<Rightarrow> val list" where
  "children h v =
     (case v of
        VRef r \<Rightarrow>
          (case heap_at h r of
             JSArray xs \<Rightarrow> map fst (entries xs)
           | JSObject ps \<Rightarrow> map (property_get h v) (map fst ps))
      | _ \<Rightarrow> [])"

text \<open>The number of objects of the heap that the guard set does not hold yet.\<close>

definition unvisited :: "heap \<Rightarrow> addr set \<Rightarrow> nat" where
  "unvisited h vis = card ({..<length h} - vis)"

text \<open>The three shapes of a value: primitive, ordered sequence, keyed mapping.\<close>

datatype shape = Primitive | Sequence | Mapping

definition shape_of :: "heap \<Rightarrow> val \<Rightarrow> shape" where
  "shape_of h v =
     (case v of
        VRef r \<Rightarrow> (case heap_at h r of JSArray _ \<Rightarrow> Sequence | JSObject _ \<Rightarrow> Mapping)
      | _ \<Rightarrow> Primitive)"

text \<open>The guard set after the guard of \<^verbatim>\<open>deepEqual\<close> has let the left operand through.\<close>

definition guard_after :: "val \<Rightarrow> addr set \<Rightarrow> addr set" where
  "guard_after a vis = (if typeof a = T_object \<and> a \<noteq> VNull then WeakSet_add vis a else vis)"

text \<open>\<^verbatim>\<open>const obj4 = {a: 313}; obj4.children = obj4;\<close> with \<^verbatim>\<open>obj4\<close> at address \<open>0\<close>.\<close>

definition cyclic_heap :: heap where
  "cyclic_heap = [JSObject [(''a'', VNumber (Finite 313)), (''children'', VRef 0)]]"

text \<open>A comparator a caller may register: any two numbers are equal.\<close>

definition any_number :: comparator where
  "any_number = CustomComparator (\<lambda>h v. typeof v = T_number) (\<lambda>h a b. typeof b = T_number)"

text \<open>
  The values met when descending from \<open>v\<close> through at most \<open>n\<close> levels (\<open>v\<close> itself is
  the first level), in the order of the walk and with repetitions.  A value that can be
  reached from \<open>v\<close> at all is reached through objects that are all different, so it is
  met within \<open>length h + 1\<close> levels.
\<close>

primrec values_below :: "nat \<Rightarrow> heap \<Rightarrow> val \<Rightarrow> val list" where
  "values_below 0 h v = []"
| "values_below (Suc n) h v = v # concat (map (values_below n h) (children h v))"

text \<open>No \<^verbatim>\<open>NaN\<close> can be reached from \<open>v\<close>.\<close>

definition nan_free :: "heap \<Rightarrow> val \<Rightarrow> bool" where
  "nan_free h v \<longleftrightarrow> VNumber NaN \<notin> set (values_below (Suc (length h)) h v)"

text \<open>
  The addresses met when descending from \<open>v\<close> through at most \<open>n\<close> levels, with
  repetitions: an object reached along two paths, or lying on a cycle, is listed twice
  within \<open>length h + 1\<close> levels.
\<close>

primrec addresses_below :: "nat \<Rightarrow> heap \<Rightarrow> val \<Rightarrow> addr list" where
  "addresses_below 0 h v = []"
| "addresses_below (Suc n) h v =
     (case v of
        VRef r \<Rightarrow> r # concat (map (addresses_below n h) (children h v))
      | _ \<Rightarrow> [])"

text \<open>
  \<open>v\<close> is a tree: no cycle can be reached from it, and no object can be reached from it
  along two different paths.
\<close>

definition tree_shaped :: "heap \<Rightarrow> val \<Rightarrow> bool" where
  "tree_shaped h v \<longleftrightarrow> distinct (addresses_below (Suc (length h)) h v)"

text \<open>No array met when descending from \<open>v\<close> through at most \<open>n\<close> levels has a hole.\<close>

definition dense_below :: "nat \<Rightarrow> heap \<Rightarrow> val \<Rightarrow> bool" where
  "dense_below n h v =
     list_all (\<lambda>r. case heap_at h r of JSArray xs \<Rightarrow> None \<notin> set xs | JSObject _ \<Rightarrow> True)
       (addresses_below n h v)"

text \<open>No array that can be reached from \<open>v\<close> has a hole.\<close>

definition dense :: "heap \<Rightarrow> val \<Rightarrow> bool" where
  "dense h v = dense_below (Suc (length h)) h v"

text \<open>The keys of an object are pairwise different, as the keys of a JavaScript object are.\<close>

definition distinct_keys :: "heap \<Rightarrow> bool" where
  "distinct_keys h =
     list_all (\<lambda>ob. case ob of JSObject ps \<Rightarrow> distinct (map fst ps) | JSArray _ \<Rightarrow> True) h"

text \<open>
  What the three built-in comparators compute when the guard of the engine is left out:
  the comparison of the two structures to depth \<open>n\<close>.
\<close>

primrec unguarded_equal :: "nat \<Rightarrow> heap \<Rightarrow> val \<Rightarrow> val \<Rightarrow> bool" where
  "unguarded_equal 0 h a b = False"
| "unguarded_equal (Suc n) h a b =
     (case shape_of h a of
        Primitive \<Rightarrow> strict_equal a b
      | Sequence \<Rightarrow>
          isArray h b \<and> length (elements h a) = length (elements h b) \<and>
          list_all (\<lambda>(item, index). unguarded_equal n h item (index_get (elements h b) index))
            (entries (elements h a))
      | Mapping \<Rightarrow>
          typeof b = T_object \<and> \<not> loose_null b \<and> \<not> isArray h b \<and>
          length (object_keys h a) = length (object_keys h b) \<and>
          list_all (\<lambda>key. key \<in> set (object_keys h b) \<and>
                      unguarded_equal n h (property_get h a key) (property_get h b key))
            (object_keys h a))"

text \<open>
  \<^verbatim>\<open>const s = [1]; const a = [s, s]; const b = [[1], [1]];\<close> with \<open>s\<close> at address \<open>0\<close>,
  \<open>a\<close> at \<open>1\<close>, the two elements of \<open>b\<close> at \<open>2\<close> and \<open>3\<close>, and \<open>b\<close> at \<open>4\<close>.
\<close>

definition shared_heap :: heap where
  "shared_heap =
     [JSArray [Some (VNumber (Finite 1))],
      JSArray [Some (VRef 0), Some (VRef 0)],
      JSArray [Some (VNumber (Finite 1))],
      JSArray [Some (VNumber (Finite 1))],
      JSArray [Some (VRef 2), Some (VRef 3)]]"

text \<open>\<^verbatim>\<open>[1, 2, 3]\<close>, \<^verbatim>\<open>[1, 2, 3]\<close> and \<^verbatim>\<open>[3, 2, 1]\<close> at the addresses \<open>0\<close>, \<open>1\<close> and \<open>2\<close>.\<close>

definition arrays_heap :: heap where
  "arrays_heap =
     [JSArray [Some (VNumber (Finite 1)), Some (VNumber (Finite 2)), Some (VNumber (Finite 3))],
      JSArray [Some (VNumber (Finite 1)), Some (VNumber (Finite 2)), Some (VNumber (Finite 3))],
      JSArray [Some (VNumber (Finite 3)), Some (VNumber (Finite 2)), Some (VNumber (Finite 1))]]"

text \<open>\<^verbatim>\<open>new Array(1)\<close> (one hole) at address \<open>0\<close> and \<^verbatim>\<open>[5]\<close> at address \<open>1\<close>.\<close>

definition sparse_heap :: heap where
  "sparse_heap = [JSArray [None], JSArray [Some (VNumber (Finite 5))]]"

text \<open>\<^verbatim>\<open>{a: 1, b: 2}\<close> and \<^verbatim>\<open>{b: 2, a: 1}\<close> at the addresses \<open>0\<close> and \<open>1\<close>.\<close>

definition objects_heap :: heap where
  "objects_heap =
     [JSObject [(''a'', VNumber (Finite 1)), (''b'', VNumber (Finite 2))],
      JSObject [(''b'', VNumber (Finite 2)), (''a'', VNumber (Finite 1))]]"

section \<open>The guard set only grows\<close>

lemma guard_after_case: "guard_after a vis = (case a of VRef r \<Rightarrow> insert r vis | _ \<Rightarrow> vis)"
  by (cases a) (simp_all add: guard_after_def WeakSet_add_def)


lemma every_mono:
  assumes "\<And>x v r v'. x \<in> set xs \<Longrightarrow> f x v = Some (r, v') \<Longrightarrow> v \<subseteq> v'"
    and "every f xs vis = Some (res, vis')"
  shows "vis \<subseteq> vis'"
  using assms
proof (induction xs arbitrary: vis)
  case Nil
  then show ?case by simp
next
  case (Cons x xs)
  from Cons.prems(2) obtain r1 v1 where fx: "f x vis = Some (r1, v1)"
    by (cases "f x vis") auto
  have sub: "vis \<subseteq> v1" using Cons.prems(1) [of x vis r1 v1] fx by simp
  show ?case
  proof (cases r1)
    case (Inl e)
    with fx Cons.prems(2) sub show ?thesis by simp
  next
    case (Inr t)
    show ?thesis
    proof (cases t)
      case True
      with Inr fx Cons.prems(2) have "every f xs v1 = Some (res, vis')" by simp
      moreover have "\<And>y v r v'. y \<in> set xs \<Longrightarrow> f y v = Some (r, v') \<Longrightarrow> v \<subseteq> v'"
        using Cons.prems(1) by (meson list.set_intros(2))
      ultimately have "v1 \<subseteq> vis'" by (rule Cons.IH [rotated])
      with sub show ?thesis by blast
    next
      case False
      with Inr fx Cons.prems(2) sub show ?thesis by simp
    qed
  qed
qed

lemma compare_mono:
  assumes ctx: "\<And>x y v r v'. ctx x y v = Some (r, v') \<Longrightarrow> v \<subseteq> v'"
    and c: "compare c h ctx a b vis = Some (res, vis')"
  shows "vis \<subseteq> vis'"
proof (cases c)
  case PrimitiveComparator
  with c show ?thesis by auto
next
  case ArrayComparator
  show ?thesis
  proof (cases "\<not> isArray h b \<or> length (elements h a) \<noteq> length (elements h b)")
    case True
    with c ArrayComparator show ?thesis by (auto simp: ArrayComparator_compare_def)
  next
    case False
    with c ArrayComparator have
      "every (\<lambda>(item, index). ctx item (index_get (elements h b) index))
         (entries (elements h a)) vis = Some (res, vis')"
      by (simp add: ArrayComparator_compare_def)
    then show ?thesis
      by (rule every_mono [rotated]) (auto dest: ctx)
  qed
next
  case ObjectComparator
  show ?thesis
  proof (cases "typeof b \<noteq> T_object \<or> loose_null b \<or> isArray h b
      \<or> length (object_keys h a) \<noteq> length (object_keys h b)")
    case True
    with c ObjectComparator show ?thesis
      by (auto simp: ObjectComparator_compare_def Let_def split: if_splits)
  next
    case False
    with c ObjectComparator have
      "every (\<lambda>key vis'.
                 if key \<in> set (object_keys h b)
                 then ctx (property_get h a key) (property_get h b key) vis'
                 else Some (Inr False, vis'))
         (object_keys h a) vis = Some (res, vis')"
      by (simp add: ObjectComparator_compare_def Let_def)
    then show ?thesis
      by (rule every_mono [rotated]) (auto dest: ctx split: if_splits)
  qed
next
  case (CustomComparator x41 x42)
  with c show ?thesis by auto
qed

lemma deepEqual_prim:
  "(\<And>r. a \<noteq> VRef r) \<Longrightarrow>
   deepEqual (Suc n) h cs a b vis =
     (case findComparator cs h a of
        None \<Rightarrow> Some (Inl NoComparatorFound, vis)
      | Some c \<Rightarrow> compare c h (deepEqual n h cs) a b vis)"
  by (cases a) (auto simp: Let_def WeakSet_has_def WeakSet_add_def)

lemma deepEqual_hit:
  "r \<in> vis \<Longrightarrow> deepEqual (Suc n) h cs (VRef r) b vis = Some (Inr (strict_equal (VRef r) b), vis)"
  by (simp add: WeakSet_has_def)

lemma deepEqual_miss:
  "r \<notin> vis \<Longrightarrow>
   deepEqual (Suc n) h cs (VRef r) b vis =
     (case findComparator cs h (VRef r) of
        None \<Rightarrow> Some (Inl NoComparatorFound, insert r vis)
      | Some c \<Rightarrow> compare c h (deepEqual n h cs) (VRef r) b (insert r vis))"
  by (simp add: WeakSet_has_def WeakSet_add_def Let_def split: option.splits)

declare deepEqual.simps(2) [simp del]

lemma deepEqual_mono: "deepEqual n h cs a b vis = Some (res, vis') \<Longrightarrow> vis \<subseteq> vis'"
proof (induction n arbitrary: a b vis res vis')
  case 0
  then show ?case by simp
next
  case (Suc n)
  have ctx: "\<And>x y v r v'. deepEqual n h cs x y v = Some (r, v') \<Longrightarrow> v \<subseteq> v'"
    by (rule Suc.IH)
  have cm: "\<And>c a b vis res vis'. compare c h (deepEqual n h cs) a b vis = Some (res, vis') \<Longrightarrow> vis \<subseteq> vis'"
    using ctx by (rule compare_mono)
  show ?case
  proof (cases "\<exists>r. a = VRef r")
    case False
    then have "\<And>r. a \<noteq> VRef r" by simp
    from Suc.prems [unfolded deepEqual_prim [OF this]] show ?thesis
      by (cases "findComparator cs h a") (simp_all add: cm)
  next
    case True
    then obtain r where a: "a = VRef r" by blast
    show ?thesis
    proof (cases "r \<in> vis")
      case True
      with Suc.prems a show ?thesis by (simp only: deepEqual_hit) simp
    next
      case False
      note eq = Suc.prems [unfolded a deepEqual_miss [OF False]]
      have "insert r vis \<subseteq> vis'"
      proof (cases "findComparator cs h (VRef r)")
        case None
        with eq show ?thesis by simp
      next
        case (Some c)
        with eq have "compare c h (deepEqual n h cs) (VRef r) b (insert r vis) = Some (res, vis')"
          by simp
        then show ?thesis by (rule cm)
      qed
      then show ?thesis by blast
    qed
  qed
qed


lemma every_cong_Some:
  assumes "\<And>x v y. x \<in> set xs \<Longrightarrow> f x v = Some y \<Longrightarrow> g x v = Some y"
    and "every f xs vis = Some z"
  shows "every g xs vis = Some z"
  using assms
proof (induction xs arbitrary: vis)
  case Nil
  then show ?case by simp
next
  case (Cons x xs)
  from Cons.prems(2) obtain r1 v1 where fx: "f x vis = Some (r1, v1)"
    by (cases "f x vis") auto
  then have gx: "g x vis = Some (r1, v1)" using Cons.prems(1) by simp
  have rest: "\<And>y v w. y \<in> set xs \<Longrightarrow> f y v = Some w \<Longrightarrow> g y v = Some w"
    using Cons.prems(1) by (meson list.set_intros(2))
  show ?case
  proof (cases "r1 = Inr True")
    case True
    with fx Cons.prems(2) have "every f xs v1 = Some z" by simp
    with rest have "every g xs v1 = Some z" by (rule Cons.IH)
    with True gx show ?thesis by simp
  next
    case False
    with fx gx Cons.prems(2) show ?thesis
      by (cases r1) (auto split: bool.splits)
  qed
qed

lemma in_entries: "(item, i) \<in> set (entries xs) \<longleftrightarrow> i < length xs \<and> xs ! i = Some item"
proof -
  have "(item, i) \<in> set (entries xs) \<longleftrightarrow>
      (\<exists>j<length xs. (item, i) \<in> set (case xs ! j of None \<Rightarrow> [] | Some x \<Rightarrow> [(x, j)]))"
    by (auto simp: entries_def set_zip)
  also have "\<dots> \<longleftrightarrow> i < length xs \<and> xs ! i = Some item"
    by (auto split: option.splits)
  finally show ?thesis .
qed

lemma entries_children: "isArray h a \<Longrightarrow> map fst (entries (elements h a)) = children h a"
  by (auto simp: isArray_def elements_def children_def split: val.splits obj.splits)

lemma entry_child: "isArray h a \<Longrightarrow> x \<in> set (entries (elements h a)) \<Longrightarrow> fst x \<in> set (children h a)"
  using entries_children [of h a] by (metis image_eqI set_map)

lemma keys_children:
  "\<not> isArray h a \<Longrightarrow> key \<in> set (object_keys h a) \<Longrightarrow> property_get h a key \<in> set (children h a)"
  by (auto simp: isArray_def object_keys_def properties_def children_def split: val.splits obj.splits)

lemma compare_cong_Some:
  assumes ctx: "\<And>x y v z. x \<in> set (children h a) \<Longrightarrow> ctx x y v = Some z \<Longrightarrow> ctx' x y v = Some z"
    and ok: "canHandle c h a"
    and c: "compare c h ctx a b vis = Some z"
  shows "compare c h ctx' a b vis = Some z"
proof (cases c)
  case PrimitiveComparator
  with c show ?thesis by auto
next
  case ArrayComparator
  with ok have arr: "isArray h a" by (simp add: ArrayComparator_canHandle_def)
  show ?thesis
  proof (cases "\<not> isArray h b \<or> length (elements h a) \<noteq> length (elements h b)")
    case True
    with c ArrayComparator show ?thesis by (auto simp: ArrayComparator_compare_def)
  next
    case False
    with c ArrayComparator have
      "every (\<lambda>(item, index). ctx item (index_get (elements h b) index))
         (entries (elements h a)) vis = Some z"
      by (simp add: ArrayComparator_compare_def)
    then have "every (\<lambda>(item, index). ctx' item (index_get (elements h b) index))
         (entries (elements h a)) vis = Some z"
      by (rule every_cong_Some [rotated])
        (auto dest!: entry_child [OF arr] intro: ctx)
    with False ArrayComparator show ?thesis by (simp add: ArrayComparator_compare_def)
  qed
next
  case ObjectComparator
  with ok have arr: "\<not> isArray h a" by (simp add: ObjectComparator_canHandle_def)
  show ?thesis
  proof (cases "typeof b \<noteq> T_object \<or> loose_null b \<or> isArray h b
      \<or> length (object_keys h a) \<noteq> length (object_keys h b)")
    case True
    with c ObjectComparator show ?thesis
      by (auto simp: ObjectComparator_compare_def Let_def split: if_splits)
  next
    case False
    with c ObjectComparator have
      "every (\<lambda>key vis'.
                 if key \<in> set (object_keys h b)
                 then ctx (property_get h a key) (property_get h b key) vis'
                 else Some (Inr False, vis'))
         (object_keys h a) vis = Some z"
      by (simp add: ObjectComparator_compare_def Let_def)
    then have "every (\<lambda>key vis'.
                 if key \<in> set (object_keys h b)
                 then ctx' (property_get h a key) (property_get h b key) vis'
                 else Some (Inr False, vis'))
         (object_keys h a) vis = Some z"
      by (rule every_cong_Some [rotated])
        (auto simp: keys_children [OF arr] intro: ctx split: if_splits)
    with False ObjectComparator show ?thesis by (simp add: ObjectComparator_compare_def Let_def)
  qed
next
  case (CustomComparator x41 x42)
  with c show ?thesis by auto
qed

lemma findComparator_canHandle: "findComparator cs h a = Some c \<Longrightarrow> canHandle c h a"
  by (auto simp: findComparator_def find_Some_iff)

lemma deepEqual_Suc: "deepEqual n h cs a b vis = Some z \<Longrightarrow> deepEqual (Suc n) h cs a b vis = Some z"
proof (induction n arbitrary: a b vis z)
  case 0
  then show ?case by simp
next
  case (Suc n)
  have cc: "\<And>c a b vis z. canHandle c h a \<Longrightarrow>
      compare c h (deepEqual n h cs) a b vis = Some z \<Longrightarrow>
      compare c h (deepEqual (Suc n) h cs) a b vis = Some z"
  proof -
    fix c a b vis z
    assume ok: "canHandle c h a" and cmp: "compare c h (deepEqual n h cs) a b vis = Some z"
    show "compare c h (deepEqual (Suc n) h cs) a b vis = Some z"
      by (rule compare_cong_Some [OF _ ok cmp]) (rule Suc.IH)
  qed
  show ?case
  proof (cases "\<exists>r. a = VRef r")
    case False
    then have prim: "\<And>r. a \<noteq> VRef r" by simp
    note eq = Suc.prems [unfolded deepEqual_prim [OF prim]]
    show ?thesis
    proof (cases "findComparator cs h a")
      case None
      with eq show ?thesis by (simp add: deepEqual_prim [OF prim])
    next
      case (Some c)
      with eq cc [OF findComparator_canHandle [OF Some]] show ?thesis
        by (simp add: deepEqual_prim [OF prim])
    qed
  next
    case True
    then obtain r where a: "a = VRef r" by blast
    show ?thesis
    proof (cases "r \<in> vis")
      case True
      with Suc.prems a show ?thesis by (simp only: deepEqual_hit)
    next
      case False
      note eq = Suc.prems [unfolded a deepEqual_miss [OF False]]
      show ?thesis
      proof (cases "findComparator cs h (VRef r)")
        case None
        with eq show ?thesis by (simp add: a deepEqual_miss [OF False])
      next
        case (Some c)
        with eq cc [OF findComparator_canHandle [OF Some]] show ?thesis
          by (simp add: a deepEqual_miss [OF False])
      qed
    qed
  qed
qed

lemma deepEqual_fuel: "deepEqual n h cs a b vis = Some z \<Longrightarrow> deepEqual (n + k) h cs a b vis = Some z"
  by (induction k) (auto dest: deepEqual_Suc)


lemma unvisited_mono: "vis \<subseteq> v \<Longrightarrow> unvisited h v \<le> unvisited h vis"
  unfolding unvisited_def by (rule card_mono) auto

lemma unvisited_insert: "r < length h \<Longrightarrow> r \<notin> vis \<Longrightarrow> unvisited h (insert r vis) < unvisited h vis"
  unfolding unvisited_def by (rule psubset_card_mono) auto

lemma unvisited_le: "unvisited h vis \<le> length h"
proof -
  have "card ({..<length h} - vis) \<le> card {..<length h}" by (rule card_mono) auto
  then show ?thesis by (simp add: unvisited_def)
qed

lemma children_dangling: "\<not> r < length h \<Longrightarrow> children h (VRef r) = []"
  by (simp add: children_def heap_at_def)

lemma children_prim: "(\<And>r. a \<noteq> VRef r) \<Longrightarrow> children h a = []"
  by (cases a) (auto simp: children_def)

lemma every_total:
  assumes "\<And>x v. x \<in> set xs \<Longrightarrow> vis \<subseteq> v \<Longrightarrow> \<exists>y. f x v = Some y"
    and "\<And>x v r v'. x \<in> set xs \<Longrightarrow> f x v = Some (r, v') \<Longrightarrow> v \<subseteq> v'"
  shows "\<exists>y. every f xs vis = Some y"
  using assms
proof (induction xs arbitrary: vis)
  case Nil
  then show ?case by simp
next
  case (Cons x xs)
  from Cons.prems(1) [of x vis] obtain r1 v1 where fx: "f x vis = Some (r1, v1)" by fastforce
  with Cons.prems(2) [of x vis r1 v1] have sub: "vis \<subseteq> v1" by simp
  have "\<exists>y. every f xs v1 = Some y"
  proof (rule Cons.IH)
    fix y v assume "y \<in> set xs" "v1 \<subseteq> v"
    with sub show "\<exists>w. f y v = Some w" using Cons.prems(1) [of y v] by auto
  next
    fix y v r v' assume "y \<in> set xs" "f y v = Some (r, v')"
    then show "v \<subseteq> v'" using Cons.prems(2) [of y v r v'] by simp
  qed
  with fx show ?case by (cases r1) (auto split: bool.splits)
qed

lemma compare_total:
  assumes tot: "\<And>x y v. x \<in> set (children h a) \<Longrightarrow> vis \<subseteq> v \<Longrightarrow> \<exists>z. ctx x y v = Some z"
    and mono: "\<And>x y v r v'. ctx x y v = Some (r, v') \<Longrightarrow> v \<subseteq> v'"
    and ok: "canHandle c h a"
  shows "\<exists>z. compare c h ctx a b vis = Some z"
proof (cases c)
  case PrimitiveComparator
  then show ?thesis by simp
next
  case ArrayComparator
  with ok have arr: "isArray h a" by (simp add: ArrayComparator_canHandle_def)
  have "\<exists>z. every (\<lambda>(item, index). ctx item (index_get (elements h b) index))
         (entries (elements h a)) vis = Some z"
  proof (rule every_total)
    fix x v
    assume x: "x \<in> set (entries (elements h a))" and v: "vis \<subseteq> v"
    obtain item index where xi: "x = (item, index)" by (cases x)
    with x have "item \<in> set (children h a)"
      by (auto dest!: entry_child [OF arr])
    from tot [OF this v] xi
    show "\<exists>y. (case x of (item, index) \<Rightarrow> ctx item (index_get (elements h b) index)) v = Some y"
      by simp
  next
    fix x v r v'
    assume "(case x of (item, index) \<Rightarrow> ctx item (index_get (elements h b) index)) v = Some (r, v')"
    then show "v \<subseteq> v'" by (cases x) (auto dest: mono)
  qed
  with ArrayComparator show ?thesis by (auto simp: ArrayComparator_compare_def)
next
  case ObjectComparator
  with ok have arr: "\<not> isArray h a" by (simp add: ObjectComparator_canHandle_def)
  have "\<exists>z. every (\<lambda>key vis'.
                 if key \<in> set (object_keys h b)
                 then ctx (property_get h a key) (property_get h b key) vis'
                 else Some (Inr False, vis'))
         (object_keys h a) vis = Some z"
  proof (rule every_total)
    fix x v
    assume x: "x \<in> set (object_keys h a)" and v: "vis \<subseteq> v"
    from tot [OF keys_children [OF arr x] v]
    show "\<exists>y. (if x \<in> set (object_keys h b)
                 then ctx (property_get h a x) (property_get h b x) v
                 else Some (Inr False, v)) = Some y"
      by simp
  next
    fix x v r v'
    assume "(if x \<in> set (object_keys h b)
                 then ctx (property_get h a x) (property_get h b x) v
                 else Some (Inr False, v)) = Some (r, v')"
    then show "v \<subseteq> v'" by (auto dest: mono split: if_splits)
  qed
  with ObjectComparator show ?thesis by (auto simp: ObjectComparator_compare_def Let_def)
next
  case (CustomComparator x41 x42)
  then show ?thesis by simp
qed

lemma deepEqual_total_aux:
  "unvisited h vis < n \<Longrightarrow> \<exists>z. deepEqual n h cs a b vis = Some z"
proof (induction n arbitrary: a b vis)
  case 0
  then show ?case by simp
next
  case (Suc n)
  have mono: "\<And>x y v r v'. deepEqual n h cs x y v = Some (r, v') \<Longrightarrow> v \<subseteq> v'"
    by (rule deepEqual_mono)
  show ?case
  proof (cases "\<exists>r. a = VRef r")
    case False
    then have prim: "\<And>r. a \<noteq> VRef r" by simp
    show ?thesis
    proof (cases "findComparator cs h a")
      case None
      then show ?thesis by (simp add: deepEqual_prim [OF prim])
    next
      case (Some c)
      have "\<exists>z. compare c h (deepEqual n h cs) a b vis = Some z"
        by (rule compare_total [OF _ mono findComparator_canHandle [OF Some]])
          (simp add: children_prim [OF prim])
      with Some show ?thesis by (simp add: deepEqual_prim [OF prim])
    qed
  next
    case True
    then obtain r where a: "a = VRef r" by blast
    show ?thesis
    proof (cases "r \<in> vis")
      case True
      then show ?thesis by (simp add: a deepEqual_hit)
    next
      case False
      show ?thesis
      proof (cases "findComparator cs h (VRef r)")
        case None
        then show ?thesis by (simp add: a deepEqual_miss [OF False])
      next
        case (Some c)
        have "\<exists>z. compare c h (deepEqual n h cs) (VRef r) b (insert r vis) = Some z"
        proof (rule compare_total [OF _ mono findComparator_canHandle [OF Some]])
          fix x y v
          assume x: "x \<in> set (children h (VRef r))" and v: "insert r vis \<subseteq> v"
          from x have r: "r < length h" using children_dangling [of r h] by fastforce
          have "unvisited h v \<le> unvisited h (insert r vis)" using v by (rule unvisited_mono)
          also have "\<dots> < unvisited h vis" using r False by (rule unvisited_insert)
          finally have "unvisited h v < n" using Suc.prems by simp
          then show "\<exists>z. deepEqual n h cs x y v = Some z" by (rule Suc.IH)
        qed
        with Some show ?thesis by (simp add: a deepEqual_miss [OF False])
      qed
    qed
  qed
qed

lemma deepEqual_total: "\<exists>z. deepEqual (Suc (length h) + k) h cs a b vis = Some z"
  by (rule deepEqual_total_aux) (use unvisited_le [of h vis] in simp)


section \<open>Running the engine on concrete values\<close>

lemmas shape_defs =
  loose_null_def isArray_def heap_at_def elements_def properties_def object_keys_def
  property_get_def index_get_def strict_equal_def

lemmas comparator_defs =
  PrimitiveComparator_canHandle_def PrimitiveComparator_compare_def
  ArrayComparator_canHandle_def ArrayComparator_compare_def
  ObjectComparator_canHandle_def ObjectComparator_compare_def

lemmas engine_defs =
  findComparator_def new_engine_def addComparator_def engine_deepEqual_def guard_after_case
  WeakSet_has_def WeakSet_add_def Let_def

lemmas run_defs = deepEqual.simps(2) shape_defs comparator_defs engine_defs

lemma deepEqual_adds: "deepEqual n h cs (VRef r) b vis = Some (res, vis') \<Longrightarrow> r \<in> vis'"
proof (cases n)
  case 0
  then show "deepEqual n h cs (VRef r) b vis = Some (res, vis') \<Longrightarrow> r \<in> vis'" by simp
next
  case (Suc m)
  assume run: "deepEqual n h cs (VRef r) b vis = Some (res, vis')"
  show "r \<in> vis'"
  proof (cases "r \<in> vis")
    case True
    with run show ?thesis by (auto dest: deepEqual_mono)
  next
    case False
    note eq = run [unfolded Suc deepEqual_miss [OF False]]
    show ?thesis
    proof (cases "findComparator cs h (VRef r)")
      case None
      with eq show ?thesis by auto
    next
      case (Some c)
      with eq have "compare c h (deepEqual m h cs) (VRef r) b (insert r vis) = Some (res, vis')"
        by simp
      then have "insert r vis \<subseteq> vis'"
        by (rule compare_mono [rotated]) (rule deepEqual_mono)
      then show ?thesis by simp
    qed
  qed
qed

section \<open>The cycle guard\<close>

text \<open>
  Claim C1.  A call of \<^verbatim>\<open>deepEqual(a, b)\<close> whose left operand \<open>a\<close> is a composite value
  already in the guard set returns \<^verbatim>\<open>a === b\<close> and leaves the guard set as it is, whatever
  the comparators are (none is asked: the list may even be empty).  The guard set holds
  \<open>a\<close> after any call that had \<open>a\<close> as its left operand, and a call removes nothing from
  it; so a second top-level call on the same engine with the same left operand is
  answered by identity.
\<close>

theorem guard_short_circuit:
  "(r \<in> vis \<longrightarrow>
      deepEqual (Suc n) h cs (VRef r) b vis = Some (Inr (strict_equal (VRef r) b), vis))
   \<and> (deepEqual m h cs (VRef r) b' vis0 = Some (res, vis) \<longrightarrow> r \<in> vis)
   \<and> (deepEqual m h cs a b' vis0 = Some (res, vis) \<longrightarrow> vis0 \<subseteq> vis)
   \<and> (engine_deepEqual m h e (VRef r) b' = Some (res, e') \<longrightarrow>
        engine_deepEqual (Suc n) h e' (VRef r) b = Some (Inr (strict_equal (VRef r) b), e'))"
proof (intro conjI impI)
  show "deepEqual (Suc n) h cs (VRef r) b vis = Some (Inr (strict_equal (VRef r) b), vis)"
    if "r \<in> vis" using that by (rule deepEqual_hit)
  show "r \<in> vis" if "deepEqual m h cs (VRef r) b' vis0 = Some (res, vis)"
    using that by (rule deepEqual_adds)
  show "vis0 \<subseteq> vis" if "deepEqual m h cs a b' vis0 = Some (res, vis)"
    using that by (rule deepEqual_mono)
  show "engine_deepEqual (Suc n) h e' (VRef r) b = Some (Inr (strict_equal (VRef r) b), e')"
    if run: "engine_deepEqual m h e (VRef r) b' = Some (res, e')"
  proof -
    from run obtain vis' where
      d: "deepEqual m h (comparators e) (VRef r) b' (visited e) = Some (res, vis')"
      and e': "e' = e\<lparr>visited := vis'\<rparr>"
      by (auto simp: engine_deepEqual_def split: option.splits)
    from d have "r \<in> vis'" by (rule deepEqual_adds)
    with e' show ?thesis by (simp add: engine_deepEqual_def deepEqual_hit)
  qed
qed

theorem guard_short_circuit_witness:
  "deepEqual (Suc 0) [JSObject [], JSObject []] [] (VRef 0) (VRef 1) {0} = Some (Inr False, {0})
   \<and> deepEqual (Suc 0) [JSObject [], JSObject []] (comparators new_engine) (VRef 0) (VRef 1) {}
       = Some (Inr True, {0})
   \<and> engine_deepEqual (Suc 0) [JSObject [], JSObject []] new_engine (VRef 0) (VRef 1)
       = Some (Inr True, new_engine\<lparr>visited := {0}\<rparr>)
   \<and> engine_deepEqual (Suc 0) [JSObject [], JSObject []] (new_engine\<lparr>visited := {0}\<rparr>) (VRef 0) (VRef 1)
       = Some (Inr False, new_engine\<lparr>visited := {0}\<rparr>)"
proof -
  let ?h = "[JSObject [], JSObject []]"
  have run: "deepEqual (Suc 0) ?h (comparators new_engine) (VRef 0) (VRef 1) {} = Some (Inr True, {0})"
    by (simp add: run_defs)
  then have top: "engine_deepEqual (Suc 0) ?h new_engine (VRef 0) (VRef 1)
      = Some (Inr True, new_engine\<lparr>visited := {0}\<rparr>)"
    by (simp add: engine_deepEqual_def new_engine_def)
  note g = guard_short_circuit [of 0 "{0}" 0 ?h _ "VRef 1" "Suc 0" "VRef 1" "{}" "Inr True"
      "VRef 0" new_engine "new_engine\<lparr>visited := {0}\<rparr>"]
  from g [of "[]"] have "deepEqual (Suc 0) ?h [] (VRef 0) (VRef 1) {0} = Some (Inr False, {0})"
    by (simp add: strict_equal_def)
  moreover from g [of "comparators new_engine"] run top
  have "engine_deepEqual (Suc 0) ?h (new_engine\<lparr>visited := {0}\<rparr>) (VRef 0) (VRef 1)
       = Some (Inr False, new_engine\<lparr>visited := {0}\<rparr>)"
    by (simp add: strict_equal_def)
  ultimately show ?thesis using run top by simp
qed

section \<open>Termination\<close>

lemma cyclic_run:
  "deepEqual (Suc (Suc 0)) cyclic_heap (comparators new_engine) (VRef 0) (VRef 0) {} = Some (Inr True, {0})"
  by (simp add: run_defs cyclic_heap_def)

text \<open>
  Claim C2.  \<^verbatim>\<open>deepEqual(a, b)\<close> returns for every heap, every pair of values, every list of
  comparators and every guard set: a recursion depth of one more than the number of
  objects of the heap is enough, and any greater depth gives a result too.  For the
  self-referential object \<^verbatim>\<open>x = {a: 313}; x.children = x\<close> the call \<^verbatim>\<open>deepEqual(x, x)\<close>
  on a new engine returns \<^verbatim>\<open>true\<close>.
\<close>

theorem deepEqual_terminates:
  "(\<exists>res vis'. deepEqual (Suc (length h) + k) h cs a b vis = Some (res, vis'))
   \<and> deepEqual (Suc (length cyclic_heap) + k) cyclic_heap (comparators new_engine) (VRef 0) (VRef 0)
        (visited new_engine) = Some (Inr True, {0})"
proof
  from deepEqual_total [of h k cs a b vis]
  show "\<exists>res vis'. deepEqual (Suc (length h) + k) h cs a b vis = Some (res, vis')" by auto
  have "deepEqual (Suc (Suc 0) + k) cyclic_heap (comparators new_engine) (VRef 0) (VRef 0) {}
      = Some (Inr True, {0})"
    using cyclic_run by (rule deepEqual_fuel)
  then show "deepEqual (Suc (length cyclic_heap) + k) cyclic_heap (comparators new_engine) (VRef 0) (VRef 0)
        (visited new_engine) = Some (Inr True, {0})"
    by (simp add: cyclic_heap_def new_engine_def)
qed

theorem deepEqual_terminates_witness:
  "\<exists>res vis'. deepEqual (Suc (Suc 0)) cyclic_heap (comparators new_engine) (VRef 0) (VRef 0) {}
      = Some (res, vis')"
  using deepEqual_terminates [of cyclic_heap 0 "comparators new_engine" "VRef 0" "VRef 0" "{}"]
  by (simp add: cyclic_heap_def)

section \<open>Dispatch on the shape of the left operand\<close>

lemma findComparator_primitive:
  "typeof a \<noteq> T_object \<Longrightarrow> findComparator (PrimitiveComparator # cs) h a = Some PrimitiveComparator"
  by (simp add: findComparator_def PrimitiveComparator_canHandle_def)

lemma typeof_not_ref: "typeof a \<noteq> T_object \<Longrightarrow> a \<noteq> VRef r"
  by auto


text \<open>
  Claim C10.  A value whose \<^verbatim>\<open>typeof\<close> is not \<^verbatim>\<open>'object'\<close> (a function, a symbol, a bigint,
  and every other non-null primitive) is routed by the three built-in comparators to the
  primitive comparator, which compares by \<^verbatim>\<open>===\<close>; \<^verbatim>\<open>deepEqual\<close> returns that boolean
  without an error and leaves the guard set unchanged.  Two functions (symbols, bigints)
  compare equal exactly when they are the same function (symbol, bigint value).
\<close>

theorem primitive_routing:
  "typeof a \<noteq> T_object \<longrightarrow>
     findComparator (comparators new_engine) h a = Some PrimitiveComparator
     \<and> compare PrimitiveComparator h ctx a b vis = Some (Inr (strict_equal a b), vis)
     \<and> deepEqual (Suc n) h (comparators new_engine) a b vis = Some (Inr (strict_equal a b), vis)
     \<and> deepEqual (Suc n) h (comparators new_engine) (VFunction f) (VFunction g) vis
          = Some (Inr (f = g), vis)
     \<and> deepEqual (Suc n) h (comparators new_engine) (VSymbol f) (VSymbol g) vis
          = Some (Inr (f = g), vis)
     \<and> deepEqual (Suc n) h (comparators new_engine) (VBigInt i) (VBigInt j) vis
          = Some (Inr (i = j), vis)"
proof (intro impI conjI)
  have run: "deepEqual (Suc n) h (comparators new_engine) x b vis = Some (Inr (strict_equal x b), vis)"
    if "typeof x \<noteq> T_object" for x b
    using that
    by (simp add: deepEqual_prim [OF typeof_not_ref] new_engine_def findComparator_primitive
        PrimitiveComparator_compare_def)
  assume a: "typeof a \<noteq> T_object"
  then show "findComparator (comparators new_engine) h a = Some PrimitiveComparator"
    by (simp add: new_engine_def findComparator_primitive)
  show "compare PrimitiveComparator h ctx a b vis = Some (Inr (strict_equal a b), vis)"
    by (simp add: PrimitiveComparator_compare_def)
  from a show "deepEqual (Suc n) h (comparators new_engine) a b vis = Some (Inr (strict_equal a b), vis)"
    by (rule run)
  show "deepEqual (Suc n) h (comparators new_engine) (VFunction f) (VFunction g) vis
          = Some (Inr (f = g), vis)"
    using run [of "VFunction f" "VFunction g"] by (simp add: strict_equal_def)
  show "deepEqual (Suc n) h (comparators new_engine) (VSymbol f) (VSymbol g) vis
          = Some (Inr (f = g), vis)"
    using run [of "VSymbol f" "VSymbol g"] by (simp add: strict_equal_def)
  show "deepEqual (Suc n) h (comparators new_engine) (VBigInt i) (VBigInt j) vis
          = Some (Inr (i = j), vis)"
    using run [of "VBigInt i" "VBigInt j"] by (simp add: strict_equal_def)
qed

theorem primitive_routing_witness:
  "typeof (VFunction 1) \<noteq> T_object
   \<and> findComparator (comparators new_engine) [] (VFunction 1) = Some PrimitiveComparator
   \<and> deepEqual (Suc 0) [] (comparators new_engine) (VFunction 1) (VFunction 2) {} = Some (Inr False, {})
   \<and> deepEqual (Suc 0) [] (comparators new_engine) (VFunction 1) (VFunction 1) {} = Some (Inr True, {})"
  using primitive_routing [of "VFunction 1" "[]" "\<lambda>_ _ _. None" "VFunction 2" "{}" 0 1 2 0 0]
    primitive_routing [of "VFunction 1" "[]" "\<lambda>_ _ _. None" "VFunction 1" "{}" 0 1 1 0 0]
  by (simp add: strict_equal_def)


lemma shape_Primitive: "shape_of h v = Primitive \<longleftrightarrow> (\<forall>r. v \<noteq> VRef r)"
  by (cases v) (auto simp: shape_of_def split: obj.splits)

lemma shape_Sequence: "shape_of h v = Sequence \<longleftrightarrow> isArray h v"
  by (cases v) (auto simp: shape_of_def isArray_def split: obj.splits)

lemma builtin_find:
  "findComparator (comparators new_engine) h a =
     Some (case shape_of h a of
             Primitive \<Rightarrow> PrimitiveComparator
           | Sequence \<Rightarrow> ArrayComparator
           | Mapping \<Rightarrow> ObjectComparator)"
  by (cases a)
    (auto simp: findComparator_def new_engine_def PrimitiveComparator_canHandle_def
      ArrayComparator_canHandle_def ObjectComparator_canHandle_def loose_null_def isArray_def
      shape_of_def split: obj.splits)

text \<open>
  Claim C6.  With the three built-in comparators, \<^verbatim>\<open>deepEqual(a, b)\<close> on operands of
  different shapes (primitive, sequence, mapping) returns \<^verbatim>\<open>false\<close> and does not throw, in
  every guard set.
\<close>

theorem cross_shape_false:
  "shape_of h a \<noteq> shape_of h b \<longrightarrow>
     deepEqual (Suc n) h (comparators new_engine) a b vis = Some (Inr False, guard_after a vis)"
proof
  assume diff: "shape_of h a \<noteq> shape_of h b"
  then have ne: "a \<noteq> b" by auto
  show "deepEqual (Suc n) h (comparators new_engine) a b vis = Some (Inr False, guard_after a vis)"
  proof (cases "shape_of h a")
    case Primitive
    then have prim: "\<And>r. a \<noteq> VRef r" by (simp add: shape_Primitive)
    then have g: "guard_after a vis = vis" by (cases a) (auto simp: guard_after_case)
    from ne Primitive show ?thesis
      by (simp add: deepEqual_prim [OF prim] builtin_find g PrimitiveComparator_compare_def
          strict_equal_def)
  next
    case Sequence
    then obtain r where a: "a = VRef r" using shape_Primitive [of h a] by auto
    from diff Sequence have nb: "\<not> isArray h b" by (simp add: shape_Sequence [symmetric])
    show ?thesis
    proof (cases "r \<in> vis")
      case True
      then have "insert r vis = vis" by auto
      with True ne a show ?thesis by (simp add: deepEqual_hit strict_equal_def guard_after_case)
    next
      case False
      with Sequence nb show ?thesis
        unfolding a
        by (simp add: deepEqual_miss builtin_find ArrayComparator_compare_def guard_after_case)
    qed
  next
    case Mapping
    then obtain r where a: "a = VRef r" using shape_Primitive [of h a] by auto
    from diff Mapping have nb: "typeof b \<noteq> T_object \<or> loose_null b \<or> isArray h b"
      by (cases b) (auto simp: shape_of_def isArray_def loose_null_def split: obj.splits)
    show ?thesis
    proof (cases "r \<in> vis")
      case True
      then have "insert r vis = vis" by auto
      with True ne a show ?thesis by (simp add: deepEqual_hit strict_equal_def guard_after_case)
    next
      case False
      with Mapping nb show ?thesis
        unfolding a
        by (simp add: deepEqual_miss builtin_find ObjectComparator_compare_def guard_after_case)
    qed
  qed
qed


theorem cross_shape_false_witness:
  "shape_of [JSArray [], JSObject []] (VRef 0) \<noteq> shape_of [JSArray [], JSObject []] (VRef 1)
   \<and> deepEqual (Suc 0) [JSArray [], JSObject []] (comparators new_engine) (VRef 0) (VRef 1) {}
        = Some (Inr False, {0})
   \<and> deepEqual (Suc 0) [JSArray [], JSObject []] (comparators new_engine) (VRef 1) (VString ''123'') {}
        = Some (Inr False, {1})
   \<and> deepEqual (Suc 0) [JSArray [], JSObject []] (comparators new_engine) VNull (VRef 1) {}
        = Some (Inr False, {})"
  using cross_shape_false [of "[JSArray [], JSObject []]" "VRef 0" "VRef 1" 0 "{}"]
    cross_shape_false [of "[JSArray [], JSObject []]" "VRef 1" "VString ''123''" 0 "{}"]
    cross_shape_false [of "[JSArray [], JSObject []]" "VNull" "VRef 1" 0 "{}"]
  by (simp add: shape_of_def heap_at_def guard_after_case)


lemma deepEqual_dispatch:
  assumes "findComparator cs h a = Some c" and "\<And>r. a = VRef r \<Longrightarrow> r \<notin> vis"
  shows "deepEqual (Suc n) h cs a b vis = compare c h (deepEqual n h cs) a b (guard_after a vis)"
proof (cases "\<exists>r. a = VRef r")
  case True
  then obtain r where a: "a = VRef r" by blast
  with assms show ?thesis by (simp add: deepEqual_miss guard_after_case)
next
  case False
  then have prim: "\<And>r. a \<noteq> VRef r" by simp
  then have "guard_after a vis = vis" by (cases a) (auto simp: guard_after_case)
  with assms show ?thesis by (simp add: deepEqual_prim [OF prim])
qed

lemma deepEqual_no_comparator:
  assumes "findComparator cs h a = None" and "\<And>r. a = VRef r \<Longrightarrow> r \<notin> vis"
  shows "deepEqual (Suc n) h cs a b vis = Some (Inl NoComparatorFound, guard_after a vis)"
proof (cases "\<exists>r. a = VRef r")
  case True
  then obtain r where a: "a = VRef r" by blast
  with assms show ?thesis by (simp add: deepEqual_miss guard_after_case)
next
  case False
  then have prim: "\<And>r. a \<noteq> VRef r" by simp
  then have "guard_after a vis = vis" by (cases a) (auto simp: guard_after_case)
  with assms show ?thesis by (simp add: deepEqual_prim [OF prim])
qed

text \<open>
  Claim C8.  \<^verbatim>\<open>addComparator(c)\<close> puts \<open>c\<close> at the head of the comparator list, so
  \<^verbatim>\<open>findComparator\<close> returns \<open>c\<close> for every value that \<open>c\<close> accepts.  \<^verbatim>\<open>findComparator\<close>
  returns the first comparator of the list, in list order, whose shape predicate accepts
  the value, and \<^verbatim>\<open>deepEqual\<close> hands a left operand that passes its guard to that
  comparator.
\<close>

theorem registration_priority:
  "comparators (addComparator e c) = c # comparators e
   \<and> (canHandle c h a \<longrightarrow> findComparator (comparators (addComparator e c)) h a = Some c)
   \<and> (findComparator cs h a = Some c' \<longleftrightarrow>
        (\<exists>i<length cs. cs ! i = c' \<and> canHandle c' h a \<and> (\<forall>j<i. \<not> canHandle (cs ! j) h a)))
   \<and> (findComparator cs h a = Some c' \<and> (\<forall>r. a = VRef r \<longrightarrow> r \<notin> vis) \<longrightarrow>
        deepEqual (Suc n) h cs a b vis = compare c' h (deepEqual n h cs) a b (guard_after a vis))
   \<and> (canHandle c h a \<and> (\<forall>r. a = VRef r \<longrightarrow> r \<notin> vis) \<longrightarrow>
        deepEqual (Suc n) h (comparators (addComparator e c)) a b vis =
          compare c h (deepEqual n h (comparators (addComparator e c))) a b (guard_after a vis))"
proof (intro conjI impI)
  show "comparators (addComparator e c) = c # comparators e"
    by (simp add: addComparator_def)
  show first: "findComparator (comparators (addComparator e c)) h a = Some c" if "canHandle c h a"
    using that by (simp add: addComparator_def findComparator_def)
  show "findComparator cs h a = Some c' \<longleftrightarrow>
        (\<exists>i<length cs. cs ! i = c' \<and> canHandle c' h a \<and> (\<forall>j<i. \<not> canHandle (cs ! j) h a))"
    unfolding findComparator_def find_Some_iff by auto
  show "deepEqual (Suc n) h cs a b vis = compare c' h (deepEqual n h cs) a b (guard_after a vis)"
    if "findComparator cs h a = Some c' \<and> (\<forall>r. a = VRef r \<longrightarrow> r \<notin> vis)"
    using that by (intro deepEqual_dispatch) auto
  show "deepEqual (Suc n) h (comparators (addComparator e c)) a b vis =
          compare c h (deepEqual n h (comparators (addComparator e c))) a b (guard_after a vis)"
    if "canHandle c h a \<and> (\<forall>r. a = VRef r \<longrightarrow> r \<notin> vis)"
    using that first by (intro deepEqual_dispatch) auto
qed

theorem registration_priority_witness:
  "canHandle any_number [] (VNumber (Finite 1))
   \<and> deepEqual (Suc 0) [] (comparators new_engine) (VNumber (Finite 1)) (VNumber (Finite 3)) {}
        = Some (Inr False, {})
   \<and> deepEqual (Suc 0) [] (comparators (addComparator new_engine any_number))
        (VNumber (Finite 1)) (VNumber (Finite 3)) {} = Some (Inr True, {})"
proof -
  have ok: "canHandle any_number [] (VNumber (Finite 1))" by (simp add: any_number_def)
  let ?cs = "comparators (addComparator new_engine any_number)"
  from registration_priority [of new_engine any_number "[]" "VNumber (Finite 1)" "[]"
        any_number "{}" 0 "VNumber (Finite 3)"] ok
  have "deepEqual (Suc 0) [] ?cs (VNumber (Finite 1)) (VNumber (Finite 3)) {}
      = compare any_number [] (deepEqual 0 [] ?cs) (VNumber (Finite 1)) (VNumber (Finite 3))
          (guard_after (VNumber (Finite 1)) {})"
    by blast
  also have "\<dots> = Some (Inr True, {})"
    by (simp add: any_number_def guard_after_case)
  finally have "deepEqual (Suc 0) [] ?cs (VNumber (Finite 1)) (VNumber (Finite 3)) {}
      = Some (Inr True, {})" .
  moreover have "deepEqual (Suc 0) [] (comparators new_engine) (VNumber (Finite 1)) (VNumber (Finite 3)) {}
        = Some (Inr False, {})"
    by (simp add: run_defs)
  ultimately show ?thesis using ok by simp
qed


section \<open>The missing-comparator error\<close>

lemma every_error:
  "every f xs vis = Some (Inl e, vis') \<Longrightarrow> \<exists>x v. f x v = Some (Inl e, vis')"
proof (induction xs arbitrary: vis)
  case Nil
  then show ?case by simp
next
  case (Cons x xs)
  from Cons.prems obtain r1 v1 where fx: "f x vis = Some (r1, v1)"
    by (cases "f x vis") auto
  show ?case
  proof (cases "r1 = Inr True")
    case True
    with fx Cons.prems have "every f xs v1 = Some (Inl e, vis')" by simp
    then show ?thesis by (rule Cons.IH)
  next
    case False
    with fx Cons.prems have "f x vis = Some (Inl e, vis')"
      by (cases r1) (auto split: bool.splits)
    then show ?thesis by blast
  qed
qed

lemma compare_error:
  assumes "compare c h ctx a b vis = Some (Inl e, vis')"
  shows "\<exists>x y v. ctx x y v = Some (Inl e, vis')"
proof (cases c)
  case PrimitiveComparator
  with assms show ?thesis by simp
next
  case ArrayComparator
  with assms have "every (\<lambda>(item, index). ctx item (index_get (elements h b) index))
         (entries (elements h a)) vis = Some (Inl e, vis')"
    by (simp add: ArrayComparator_compare_def split: if_splits)
  from every_error [OF this] show ?thesis by (auto split: prod.splits)
next
  case ObjectComparator
  with assms have "every (\<lambda>key vis'.
                 if key \<in> set (object_keys h b)
                 then ctx (property_get h a key) (property_get h b key) vis'
                 else Some (Inr False, vis'))
         (object_keys h a) vis = Some (Inl e, vis')"
    by (simp add: ObjectComparator_compare_def Let_def split: if_splits)
  from every_error [OF this] show ?thesis by (auto split: if_splits)
next
  case (CustomComparator x41 x42)
  with assms show ?thesis by simp
qed

lemma deepEqual_error:
  "deepEqual n h cs a b vis = Some (Inl e, vis') \<Longrightarrow> \<exists>v. findComparator cs h v = None"
proof (induction n arbitrary: a b vis vis')
  case 0
  then show ?case by simp
next
  case (Suc n)
  show ?case
  proof (cases "findComparator cs h a")
    case None
    then show ?thesis by blast
  next
    case (Some c)
    show ?thesis
    proof (cases "\<exists>r. a = VRef r \<and> r \<in> vis")
      case True
      with Suc.prems show ?thesis by (auto simp: deepEqual_hit)
    next
      case False
      then have nohit: "\<And>r. a = VRef r \<Longrightarrow> r \<notin> vis" by blast
      have "compare c h (deepEqual n h cs) a b (guard_after a vis) = Some (Inl e, vis')"
        using Suc.prems deepEqual_dispatch [OF Some nohit, of n b] by simp
      from compare_error [OF this]
      obtain x y v where "deepEqual n h cs x y v = Some (Inl e, vis')" by blast
      then show ?thesis by (rule Suc.IH)
    qed
  qed
qed

lemma findComparator_append_builtin: "findComparator (cs @ comparators new_engine) h v \<noteq> None"
proof -
  have "findComparator (comparators new_engine) h v \<noteq> None" by (simp add: builtin_find)
  then show ?thesis
    by (auto simp: findComparator_def find_None_iff)
qed

text \<open>
  Claim C7.  \<^verbatim>\<open>findComparator\<close> finds nothing exactly when no comparator of the list
  accepts the value, and then \<^verbatim>\<open>deepEqual\<close> throws (on a left operand that passes the
  guard); a call throws only if some value is accepted by no comparator of the list.
  Every value is accepted by one of the three built-in comparators, so \<^verbatim>\<open>deepEqual\<close> never
  throws on a new engine, nor on an engine that has had any comparators added.
\<close>

theorem no_comparator_error:
  "(findComparator cs h a = None \<longleftrightarrow> (\<forall>c\<in>set cs. \<not> canHandle c h a))
   \<and> ((\<forall>c\<in>set cs. \<not> canHandle c h a) \<and> (\<forall>r. a = VRef r \<longrightarrow> r \<notin> vis) \<longrightarrow>
        deepEqual (Suc n) h cs a b vis = Some (Inl NoComparatorFound, guard_after a vis))
   \<and> (deepEqual m h cs a b vis = Some (Inl e, vis') \<longrightarrow>
        (\<exists>v. \<forall>c\<in>set cs. \<not> canHandle c h v))
   \<and> (\<exists>c\<in>set (comparators new_engine). canHandle c h a)
   \<and> deepEqual m h (comparators new_engine) a b vis \<noteq> Some (Inl e, vis')
   \<and> deepEqual m h (comparators (fold (\<lambda>c e. addComparator e c) cs new_engine)) a b vis
        \<noteq> Some (Inl e, vis')"
proof (intro conjI impI)
  show none: "findComparator cs h a = None \<longleftrightarrow> (\<forall>c\<in>set cs. \<not> canHandle c h a)" for cs a
    by (auto simp: findComparator_def find_None_iff)
  show "deepEqual (Suc n) h cs a b vis = Some (Inl NoComparatorFound, guard_after a vis)"
    if "(\<forall>c\<in>set cs. \<not> canHandle c h a) \<and> (\<forall>r. a = VRef r \<longrightarrow> r \<notin> vis)"
    using that by (intro deepEqual_no_comparator) (auto simp: none)
  show "\<exists>v. \<forall>c\<in>set cs. \<not> canHandle c h v" if "deepEqual m h cs a b vis = Some (Inl e, vis')"
    using deepEqual_error [OF that] by (simp add: none)
  show "\<exists>c\<in>set (comparators new_engine). canHandle c h a"
    using findComparator_append_builtin [of "[]" h a] by (simp only: none append_Nil) blast
  have never: "deepEqual m h (cs @ comparators new_engine) a b vis \<noteq> Some (Inl e, vis')" for cs
    using deepEqual_error [of m h "cs @ comparators new_engine" a b vis e vis']
      findComparator_append_builtin [of cs h] by blast
  from never [of "[]"] show "deepEqual m h (comparators new_engine) a b vis \<noteq> Some (Inl e, vis')"
    by simp
  have "comparators (fold (\<lambda>c e. addComparator e c) cs e0) = rev cs @ comparators e0" for e0
    by (induction cs arbitrary: e0) (simp_all add: addComparator_def)
  with never [of "rev cs"]
  show "deepEqual m h (comparators (fold (\<lambda>c e. addComparator e c) cs new_engine)) a b vis
        \<noteq> Some (Inl e, vis')"
    by simp
qed


theorem no_comparator_error_witness:
  "deepEqual (Suc 0) [] [ArrayComparator, ObjectComparator] (VNumber (Finite 1)) (VNumber (Finite 1)) {}
     = Some (Inl NoComparatorFound, {})
   \<and> (\<exists>c\<in>set (comparators new_engine). canHandle c [] (VNumber (Finite 1)))
   \<and> deepEqual (Suc 0) [] (comparators new_engine) (VNumber (Finite 1)) (VNumber (Finite 1)) {}
     = Some (Inr True, {})"
proof -
  note t = no_comparator_error [of "[ArrayComparator, ObjectComparator]" "[]" "VNumber (Finite 1)"
      "{}" 0 "VNumber (Finite 1)" "Suc 0" NoComparatorFound "{}"]
  have "\<forall>c\<in>set [ArrayComparator, ObjectComparator]. \<not> canHandle c [] (VNumber (Finite 1))"
    by (simp add: comparator_defs shape_defs)
  with t have "deepEqual (Suc 0) [] [ArrayComparator, ObjectComparator] (VNumber (Finite 1))
      (VNumber (Finite 1)) {} = Some (Inl NoComparatorFound, {})"
    by (simp add: guard_after_case)
  moreover from t have "\<exists>c\<in>set (comparators new_engine). canHandle c [] (VNumber (Finite 1))"
    by blast
  moreover have "deepEqual (Suc 0) [] (comparators new_engine) (VNumber (Finite 1))
      (VNumber (Finite 1)) {} = Some (Inr True, {})"
    by (simp add: run_defs)
  ultimately show ?thesis by blast
qed

section \<open>What \<^verbatim>\<open>every\<close> returns\<close>

lemma every_Cons_True:
  "every f (x # xs) s = Some (Inr True, s') \<longleftrightarrow>
     (\<exists>s1. f x s = Some (Inr True, s1) \<and> every f xs s1 = Some (Inr True, s'))"
  by (auto split: option.splits sum.splits bool.splits)


lemma every_True_iff:
  "every f xs s = Some (Inr True, s') \<longleftrightarrow>
     (\<exists>ss. length ss = Suc (length xs) \<and> ss ! 0 = s \<and> ss ! length xs = s' \<and>
        (\<forall>i<length xs. f (xs ! i) (ss ! i) = Some (Inr True, ss ! Suc i)))"
proof (induction xs arbitrary: s)
  case Nil
  have "(\<exists>ss::addr set list. length ss = Suc 0 \<and> ss ! 0 = s \<and> ss ! 0 = s') \<longleftrightarrow> s = s'"
  proof
    assume "s = s'"
    then have "length [s] = Suc 0 \<and> [s] ! 0 = s \<and> [s] ! 0 = s'" by simp
    then show "\<exists>ss::addr set list. length ss = Suc 0 \<and> ss ! 0 = s \<and> ss ! 0 = s'" by blast
  qed auto
  then show ?case by auto
next
  case (Cons x xs)
  show ?case
  proof
    assume "every f (x # xs) s = Some (Inr True, s')"
    then obtain s1 where fx: "f x s = Some (Inr True, s1)"
      and rest: "every f xs s1 = Some (Inr True, s')"
      by (auto simp only: every_Cons_True)
    from rest obtain ss where ss: "length ss = Suc (length xs)" "ss ! 0 = s1" "ss ! length xs = s'"
      "\<forall>i<length xs. f (xs ! i) (ss ! i) = Some (Inr True, ss ! Suc i)"
      unfolding Cons.IH by blast
    have "length (s # ss) = Suc (length (x # xs)) \<and> (s # ss) ! 0 = s
        \<and> (s # ss) ! length (x # xs) = s'
        \<and> (\<forall>i<length (x # xs). f ((x # xs) ! i) ((s # ss) ! i) = Some (Inr True, (s # ss) ! Suc i))"
      using ss fx by (simp add: All_less_Suc2)
    then show "\<exists>ss. length ss = Suc (length (x # xs)) \<and> ss ! 0 = s \<and> ss ! length (x # xs) = s' \<and>
        (\<forall>i<length (x # xs). f ((x # xs) ! i) (ss ! i) = Some (Inr True, ss ! Suc i))"
      by blast
  next
    assume "\<exists>ss. length ss = Suc (length (x # xs)) \<and> ss ! 0 = s \<and> ss ! length (x # xs) = s' \<and>
        (\<forall>i<length (x # xs). f ((x # xs) ! i) (ss ! i) = Some (Inr True, ss ! Suc i))"
    then obtain ss where ss: "length ss = Suc (length (x # xs))" "ss ! 0 = s"
      "ss ! length (x # xs) = s'"
      "\<forall>i<length (x # xs). f ((x # xs) ! i) (ss ! i) = Some (Inr True, ss ! Suc i)"
      by blast
    from ss(1) obtain s0 ss' where split: "ss = s0 # ss'" by (cases ss) auto
    with ss have "length ss' = Suc (length xs) \<and> ss' ! 0 = ss' ! 0 \<and> ss' ! length xs = s' \<and>
        (\<forall>i<length xs. f (xs ! i) (ss' ! i) = Some (Inr True, ss' ! Suc i))"
      by (simp add: All_less_Suc2)
    then have "every f xs (ss' ! 0) = Some (Inr True, s')"
      unfolding Cons.IH by blast
    moreover from ss split have "f x s = Some (Inr True, ss' ! 0)"
      by (simp add: All_less_Suc2)
    ultimately show "every f (x # xs) s = Some (Inr True, s')"
      by (simp only: every_Cons_True) blast
  qed
qed


section \<open>The array comparator\<close>

lemma deepEqual_array:
  assumes "heap_at h r = JSArray xs" and "r \<notin> vis"
  shows "deepEqual (Suc n) h (comparators new_engine) (VRef r) b vis =
     ArrayComparator_compare h (deepEqual n h (comparators new_engine)) (VRef r) b (insert r vis)"
proof -
  from assms(1) have "shape_of h (VRef r) = Sequence" by (simp add: shape_of_def)
  then have "findComparator (comparators new_engine) h (VRef r) = Some ArrayComparator"
    by (simp add: builtin_find)
  with assms(2) show ?thesis by (simp add: deepEqual_miss)
qed









section \<open>Reflexivity\<close>

lemma every_all_True:
  assumes "\<And>x v r v'. x \<in> set items \<Longrightarrow> f x v = Some (r, v') \<Longrightarrow> r = Inr True"
    and "every f items vis = Some (res, vis')"
  shows "res = Inr True"
  using assms
proof (induction items arbitrary: vis)
  case Nil
  then show ?case by simp
next
  case (Cons x xs)
  from Cons.prems(2) obtain r1 v1 where fx: "f x vis = Some (r1, v1)"
    by (cases "f x vis") auto
  with Cons.prems(1) [of x vis r1 v1] have r1: "r1 = Inr True" by simp
  with fx Cons.prems(2) have "every f xs v1 = Some (res, vis')" by simp
  moreover have "\<And>y v r v'. y \<in> set xs \<Longrightarrow> f y v = Some (r, v') \<Longrightarrow> r = Inr True"
    using Cons.prems(1) by (meson list.set_intros(2))
  ultimately show ?case by (rule Cons.IH [rotated])
qed

lemma deepEqual_object:
  assumes "heap_at h r = JSObject ps" and "r \<notin> vis"
  shows "deepEqual (Suc n) h (comparators new_engine) (VRef r) b vis =
     ObjectComparator_compare h (deepEqual n h (comparators new_engine)) (VRef r) b (insert r vis)"
proof -
  from assms(1) have "shape_of h (VRef r) = Mapping" by (simp add: shape_of_def)
  then have "findComparator (comparators new_engine) h (VRef r) = Some ObjectComparator"
    by (simp add: builtin_find)
  with assms(2) show ?thesis by (simp add: deepEqual_miss)
qed

lemma deepEqual_primitive:
  assumes "\<And>r. a \<noteq> VRef r"
  shows "deepEqual (Suc n) h (comparators new_engine) a b vis = Some (Inr (strict_equal a b), vis)"
proof -
  from assms have "shape_of h a = Primitive" by (simp add: shape_Primitive)
  then show ?thesis
    by (simp add: deepEqual_prim [OF assms] builtin_find PrimitiveComparator_compare_def)
qed

lemma child_values_below:
  "x \<in> set (children h v) \<Longrightarrow> set (values_below n h x) \<subseteq> set (values_below (Suc n) h v)"
  by auto

lemma properties_object: "heap_at h r = JSObject ps \<Longrightarrow> properties h (VRef r) = ps"
  by (simp add: properties_def)

lemma elements_array: "heap_at h r = JSArray xs \<Longrightarrow> elements h (VRef r) = xs"
  by (simp add: elements_def)

lemma isArray_ref: "isArray h (VRef r) \<longleftrightarrow> (\<exists>xs. heap_at h r = JSArray xs)"
  by (auto simp: isArray_def split: obj.splits)

lemma deepEqual_same:
  "VNumber NaN \<notin> set (values_below n h v) \<Longrightarrow>
   deepEqual n h (comparators new_engine) v v vis = Some (res, vis') \<Longrightarrow> res = Inr True"
proof (induction n arbitrary: v vis res vis')
  case 0
  then show ?case by simp
next
  case (Suc n)
  let ?B = "comparators new_engine"
  from Suc.prems(1) have v: "v \<noteq> VNumber NaN" by auto
  have child: "res' = Inr True"
    if "x \<in> set (children h v)" "deepEqual n h ?B x x w = Some (res', w')" for x w res' w'
  proof (rule Suc.IH [OF _ that(2)])
    from child_values_below [OF that(1), of n] Suc.prems(1)
    show "VNumber NaN \<notin> set (values_below n h x)" by blast
  qed
  show ?case
  proof (cases "\<exists>r. v = VRef r")
    case False
    then have "\<And>r. v \<noteq> VRef r" by simp
    from Suc.prems(2) [unfolded deepEqual_primitive [OF this]] v show ?thesis
      by (auto simp: strict_equal_def)
  next
    case True
    then obtain r where r: "v = VRef r" by blast
    show ?thesis
    proof (cases "r \<in> vis")
      case True
      with Suc.prems(2) show ?thesis by (auto simp: r deepEqual_hit strict_equal_def)
    next
      case False
      show ?thesis
      proof (cases "heap_at h r")
        case (JSArray xs)
        then have ch: "children h v = map fst (entries xs)" by (simp add: children_def r)
        from JSArray have arr: "isArray h v" by (simp add: r isArray_ref)
        from Suc.prems(2) have
          "every (\<lambda>(item, index). deepEqual n h ?B item (index_get xs index))
             (entries xs) (insert r vis) = Some (res, vis')"
          using arr
          by (simp add: r deepEqual_array [OF JSArray False] ArrayComparator_compare_def
              elements_array [OF JSArray])
        then show ?thesis
        proof (rule every_all_True [rotated])
          fix x w res' w'
          assume x: "x \<in> set (entries xs)"
            and run: "(case x of (item, index) \<Rightarrow> deepEqual n h ?B item (index_get xs index)) w
              = Some (res', w')"
          obtain item index where xi: "x = (item, index)" by (cases x)
          with x have at: "index < length xs" "xs ! index = Some item"
            by (simp_all add: in_entries)
          then have "index_get xs index = item" by (simp add: index_get_def)
          with run xi have "deepEqual n h ?B item item w = Some (res', w')" by simp
          moreover from x xi have "item \<in> set (children h v)" by (force simp: ch)
          ultimately show "res' = Inr True" by (intro child) auto
        qed
      next
        case (JSObject ps)
        then have ch: "children h (VRef r) = map (property_get h (VRef r)) (map fst ps)"
          by (simp add: children_def)
        from JSObject have notarr: "\<not> isArray h (VRef r)" by (simp add: isArray_ref)
        from JSObject have keys: "object_keys h (VRef r) = map fst ps"
          by (simp add: object_keys_def properties_object)
        from Suc.prems(2) have
          "every (\<lambda>key w.
               if key \<in> set (map fst ps)
               then deepEqual n h ?B (property_get h (VRef r) key) (property_get h (VRef r) key) w
               else Some (Inr False, w))
             (map fst ps) (insert r vis) = Some (res, vis')"
          using notarr keys
          by (simp add: r deepEqual_object [OF JSObject False] ObjectComparator_compare_def
              loose_null_def)
        then show ?thesis
        proof (rule every_all_True [rotated])
          fix key w res' w'
          assume "key \<in> set (map fst ps)"
            and "(if key \<in> set (map fst ps)
               then deepEqual n h ?B (property_get h (VRef r) key) (property_get h (VRef r) key) w
               else Some (Inr False, w)) = Some (res', w')"
          then have "deepEqual n h ?B (property_get h (VRef r) key) (property_get h (VRef r) key) w
              = Some (res', w')"
            "property_get h (VRef r) key \<in> set (children h v)"
            by (auto simp: ch r)
          then show "res' = Inr True" by (intro child) auto
        qed
      qed
    qed
  qed
qed

text \<open>
  Claim C3, amended.  \<^verbatim>\<open>deepEqual(v, v)\<close> returns \<^verbatim>\<open>true\<close>, from a new engine as from any
  guard set, for every value \<open>v\<close>, cyclic or not, from which no \<^verbatim>\<open>NaN\<close> can be reached.
  (\<^verbatim>\<open>NaN === NaN\<close> is \<^verbatim>\<open>false\<close>, so \<^verbatim>\<open>deepEqual(NaN, NaN)\<close> is \<^verbatim>\<open>false\<close>.)
\<close>

theorem reflexive_without_NaN:
  "nan_free h v \<longrightarrow>
     (\<exists>vis'. deepEqual (Suc (length h) + k) h (comparators new_engine) v v vis = Some (Inr True, vis'))"
proof
  assume "nan_free h v"
  then have nan: "VNumber NaN \<notin> set (values_below (Suc (length h)) h v)"
    by (simp add: nan_free_def)
  from deepEqual_total [of h 0 "comparators new_engine" v v vis]
  obtain res vis' where run: "deepEqual (Suc (length h)) h (comparators new_engine) v v vis = Some (res, vis')"
    by auto
  from deepEqual_same [OF nan run] run
  have "deepEqual (Suc (length h)) h (comparators new_engine) v v vis = Some (Inr True, vis')"
    by simp
  from deepEqual_fuel [OF this, of k]
  show "\<exists>vis'. deepEqual (Suc (length h) + k) h (comparators new_engine) v v vis = Some (Inr True, vis')"
    by blast
qed

theorem reflexive_without_NaN_witness:
  "nan_free cyclic_heap (VRef 0)
   \<and> (\<exists>vis'. deepEqual (Suc (Suc 0)) cyclic_heap (comparators new_engine) (VRef 0) (VRef 0) {}
        = Some (Inr True, vis'))"
proof -
  have nan: "nan_free cyclic_heap (VRef 0)"
    by (simp add: nan_free_def cyclic_heap_def children_def shape_defs)
  with reflexive_without_NaN [of cyclic_heap "VRef 0" 0 "{}"] show ?thesis
    by (simp add: cyclic_heap_def)
qed

text \<open>The claim as stated fails on \<^verbatim>\<open>deepEqual(NaN, NaN)\<close>, which is \<^verbatim>\<open>false\<close>.\<close>

theorem reflexive_counterexample:
  "deepEqual (Suc 0) [] (comparators new_engine) (VNumber NaN) (VNumber NaN) (visited new_engine)
     = Some (Inr False, {})"
  by (simp add: run_defs)

section \<open>The object comparator\<close>

lemma objects_run:
  "deepEqual (Suc (Suc 0)) objects_heap (comparators new_engine) (VRef 0) (VRef 1) {} = Some (Inr True, {0})"
  by (simp add: run_defs objects_heap_def)

lemma same_properties:
  assumes "set qs = set ps" and "distinct (map fst ps)" and "distinct (map fst qs)"
  shows "length ps = length qs" and "map_of ps = map_of qs"
proof -
  from assms(2,3) have "distinct ps" "distinct qs" by (simp_all add: distinct_map)
  then have "card (set ps) = length ps" "card (set qs) = length qs"
    by (simp_all add: distinct_card)
  with assms(1) show "length ps = length qs" by simp
  from assms show "map_of ps = map_of qs" by (simp add: map_of_inject_set)
qed

lemma reordered_object:
  assumes a: "heap_at h r = JSObject ps" and b: "heap_at h q = JSObject qs"
    and same: "set qs = set ps" and dp: "distinct (map fst ps)" and dq: "distinct (map fst qs)"
    and nan: "VNumber NaN \<notin> set (values_below (Suc n) h (VRef r))"
    and r: "r \<notin> vis"
    and run: "deepEqual (Suc n) h (comparators new_engine) (VRef r) (VRef q) vis = Some (res, vis')"
  shows "res = Inr True"
proof -
  let ?B = "comparators new_engine"
  note sp = same_properties [OF same dp dq]
  from b have notarr: "\<not> isArray h (VRef q)" by (simp add: isArray_ref)
  have keysA: "object_keys h (VRef r) = map fst ps"
    using a by (simp add: object_keys_def properties_object)
  have keysB: "object_keys h (VRef q) = map fst qs"
    using b by (simp add: object_keys_def properties_object)
  have get: "property_get h (VRef q) key = property_get h (VRef r) key" for key
    using a b sp(2) by (simp add: property_get_def properties_object)
  have ch: "children h (VRef r) = map (property_get h (VRef r)) (map fst ps)"
    using a by (simp add: children_def)
  from run have
    "every (\<lambda>key w.
         if key \<in> set (map fst qs)
         then deepEqual n h ?B (property_get h (VRef r) key) (property_get h (VRef r) key) w
         else Some (Inr False, w))
       (map fst ps) (insert r vis) = Some (res, vis')"
    using notarr sp(1)
    by (simp add: deepEqual_object [OF a r] ObjectComparator_compare_def loose_null_def
        keysA keysB get cong: if_cong)
  then show ?thesis
  proof (rule every_all_True [rotated])
    fix key w res' w'
    assume key: "key \<in> set (map fst ps)"
      and call: "(if key \<in> set (map fst qs)
         then deepEqual n h ?B (property_get h (VRef r) key) (property_get h (VRef r) key) w
         else Some (Inr False, w)) = Some (res', w')"
    from key same have "key \<in> set (map fst qs)" by simp
    with call have c: "deepEqual n h ?B (property_get h (VRef r) key) (property_get h (VRef r) key) w
        = Some (res', w')"
      by simp
    from key have "property_get h (VRef r) key \<in> set (children h (VRef r))"
      by (auto simp: ch)
    from child_values_below [OF this, of n] nan
    have "VNumber NaN \<notin> set (values_below n h (property_get h (VRef r) key))" by blast
    then show "res' = Inr True" using c by (rule deepEqual_same)
  qed
qed

lemma ObjectComparator_compare_object:
  "heap_at h r = JSObject ps \<Longrightarrow>
   ObjectComparator_compare h ctx (VRef r) b vis =
     (if typeof b \<noteq> T_object \<or> loose_null b \<or> isArray h b \<or> length ps \<noteq> length (object_keys h b)
      then Some (Inr False, vis)
      else every (\<lambda>key w. if key \<in> set (object_keys h b)
                   then ctx (property_get h (VRef r) key) (property_get h b key) w
                   else Some (Inr False, w))
             (map fst ps) vis)"
  by (simp add: ObjectComparator_compare_def Let_def object_keys_def properties_object)

text \<open>
  Claim C4.  The object comparator, comparing a keyed mapping \<open>a\<close> with a value \<open>b\<close>,
  returns \<^verbatim>\<open>false\<close> if \<open>b\<close> is nil, is not a composite, is a sequence, or has another number
  of own keys, and so does \<^verbatim>\<open>deepEqual(a, b)\<close> on a new engine's comparators, in every
  guard set.  Otherwise the comparator returns \<^verbatim>\<open>true\<close> exactly when every key of \<open>a\<close> is
  among the keys of \<open>b\<close> and the engine calls on the two values at each key, made in the
  order of the keys of \<open>a\<close>, each on the guard set left by the one before, all return
  \<^verbatim>\<open>true\<close>.  \<^verbatim>\<open>deepEqual(a, b)\<close> is that comparison, the engine calling itself, when \<open>a\<close> is
  met for the first time.  Consequently a mapping \<open>b\<close> that holds the properties of \<open>a\<close> in
  another order equals \<open>a\<close> (no \<^verbatim>\<open>NaN\<close> being reachable from \<open>a\<close>), and
  \<^verbatim>\<open>deepEqual({a: 1, b: 2}, {b: 2, a: 1})\<close> is \<^verbatim>\<open>true\<close>.
\<close>

theorem object_comparison:
  "heap_at h r = JSObject ps \<longrightarrow>
     (typeof b \<noteq> T_object \<or> loose_null b \<or> isArray h b \<or> length ps \<noteq> length (object_keys h b) \<longrightarrow>
        ObjectComparator_compare h ctx (VRef r) b vis = Some (Inr False, vis)
        \<and> deepEqual (Suc n) h (comparators new_engine) (VRef r) b vis
            = Some (Inr False, insert r vis))
   \<and> (typeof b = T_object \<and> \<not> loose_null b \<and> \<not> isArray h b
        \<and> length ps = length (object_keys h b) \<longrightarrow>
        (ObjectComparator_compare h ctx (VRef r) b vis = Some (Inr True, vis') \<longleftrightarrow>
           (\<exists>ss. length ss = Suc (length ps) \<and> ss ! 0 = vis \<and> ss ! length ps = vis' \<and>
              (\<forall>i<length ps.
                 fst (ps ! i) \<in> set (object_keys h b) \<and>
                 ctx (property_get h (VRef r) (fst (ps ! i))) (property_get h b (fst (ps ! i))) (ss ! i)
                   = Some (Inr True, ss ! Suc i)))))
   \<and> (r \<notin> vis \<longrightarrow>
        deepEqual (Suc n) h (comparators new_engine) (VRef r) b vis =
          ObjectComparator_compare h (deepEqual n h (comparators new_engine)) (VRef r) b
            (insert r vis))
   \<and> (r \<notin> vis \<and> heap_at h q = JSObject qs \<and> set qs = set ps
        \<and> distinct (map fst ps) \<and> distinct (map fst qs) \<and> nan_free h (VRef r) \<longrightarrow>
        (\<exists>vis'. deepEqual (Suc (length h) + k) h (comparators new_engine) (VRef r) (VRef q) vis
           = Some (Inr True, vis')))
   \<and> deepEqual (Suc (Suc m)) objects_heap (comparators new_engine) (VRef 0) (VRef 1)
        (visited new_engine) = Some (Inr True, {0})"
proof (intro impI conjI; (elim conjE)?)
  let ?B = "comparators new_engine"
  let ?a = "VRef r"
  let ?f = "\<lambda>key w. if key \<in> set (object_keys h b)
      then ctx (property_get h ?a key) (property_get h b key) w
      else Some (Inr False, w)"
  {
    assume a: "heap_at h r = JSObject ps"
    note cmp = ObjectComparator_compare_object [OF a]
    {
      assume r: "r \<notin> vis"
      then show "deepEqual (Suc n) h ?B ?a b vis =
          ObjectComparator_compare h (deepEqual n h ?B) ?a b (insert r vis)"
        by (rule deepEqual_object [OF a])
    }
    {
      assume differ: "typeof b \<noteq> T_object \<or> loose_null b \<or> isArray h b
        \<or> length ps \<noteq> length (object_keys h b)"
      then show early: "ObjectComparator_compare h ctx ?a b vis = Some (Inr False, vis)"
        for ctx vis
        by (simp add: cmp)
      show "deepEqual (Suc n) h ?B ?a b vis = Some (Inr False, insert r vis)"
      proof (cases "r \<in> vis")
        case True
        from differ a have "b \<noteq> ?a"
          by (auto simp: isArray_ref loose_null_def object_keys_def properties_object)
        moreover from True have "insert r vis = vis" by auto
        ultimately show ?thesis using True by (simp add: deepEqual_hit strict_equal_def)
      next
        case False
        then show ?thesis by (simp add: deepEqual_object [OF a] early)
      qed
    }
    {
      assume "typeof b = T_object" "\<not> loose_null b" "\<not> isArray h b"
        "length ps = length (object_keys h b)"
      then have every: "ObjectComparator_compare h ctx ?a b vis = every ?f (map fst ps) vis"
        by (simp add: cmp)
      have call: "?f (map fst ps ! i) w = Some (Inr True, w') \<longleftrightarrow>
          fst (ps ! i) \<in> set (object_keys h b) \<and>
          ctx (property_get h ?a (fst (ps ! i))) (property_get h b (fst (ps ! i))) w
            = Some (Inr True, w')"
        if "i < length ps" for i w w'
        using that by simp
      show "ObjectComparator_compare h ctx ?a b vis = Some (Inr True, vis') \<longleftrightarrow>
           (\<exists>ss. length ss = Suc (length ps) \<and> ss ! 0 = vis \<and> ss ! length ps = vis' \<and>
              (\<forall>i<length ps.
                 fst (ps ! i) \<in> set (object_keys h b) \<and>
                 ctx (property_get h ?a (fst (ps ! i))) (property_get h b (fst (ps ! i))) (ss ! i)
                   = Some (Inr True, ss ! Suc i)))"
        unfolding every every_True_iff using call by simp
    }
    assume r: "r \<notin> vis" and b: "heap_at h q = JSObject qs" and same: "set qs = set ps"
      and dp: "distinct (map fst ps)" and dq: "distinct (map fst qs)"
      and nan: "nan_free h ?a"
    from deepEqual_total [of h 0 ?B ?a "VRef q" vis]
    obtain res w where total: "deepEqual (Suc (length h)) h ?B ?a (VRef q) vis = Some (res, w)"
      by auto
    from nan have "VNumber NaN \<notin> set (values_below (Suc (length h)) h ?a)"
      by (simp add: nan_free_def)
    from reordered_object [OF a b same dp dq this r total] total
    have "deepEqual (Suc (length h)) h ?B ?a (VRef q) vis = Some (Inr True, w)" by simp
    from deepEqual_fuel [OF this, of k]
    show "\<exists>vis'. deepEqual (Suc (length h) + k) h ?B ?a (VRef q) vis = Some (Inr True, vis')"
      by blast
  }
  show "deepEqual (Suc (Suc m)) objects_heap ?B (VRef 0) (VRef 1) (visited new_engine) = Some (Inr True, {0})"
    using deepEqual_fuel [OF objects_run, of m] by (simp add: new_engine_def)
qed

theorem object_comparison_witness:
  "heap_at objects_heap 0 = JSObject [(''a'', VNumber (Finite 1)), (''b'', VNumber (Finite 2))]
   \<and> deepEqual (Suc 0) objects_heap (comparators new_engine) (VRef 0) VNull {} = Some (Inr False, {0})
   \<and> nan_free objects_heap (VRef 0)
   \<and> (\<exists>vis'. deepEqual (Suc (length objects_heap) + 0) objects_heap (comparators new_engine)
         (VRef 0) (VRef 1) {} = Some (Inr True, vis'))"
proof -
  let ?ps = "[(''a'', VNumber (Finite 1)), (''b'', VNumber (Finite 2))]"
  let ?qs = "[(''b'', VNumber (Finite 2)), (''a'', VNumber (Finite 1))]"
  have a: "heap_at objects_heap 0 = JSObject ?ps" and b: "heap_at objects_heap 1 = JSObject ?qs"
    by (simp_all add: heap_at_def objects_heap_def)
  have nan: "nan_free objects_heap (VRef 0)"
    by (simp add: nan_free_def objects_heap_def children_def shape_defs)
  have same: "set ?qs = set ?ps" "distinct (map fst ?ps)" "distinct (map fst ?qs)"
    by auto
  have fresh: "(0::nat) \<notin> {}" by simp
  note t = object_comparison [of objects_heap 0 ?ps VNull "\<lambda>_ _ _. None" "{}" 0 "{}" 1 ?qs 0 0,
      THEN mp, OF a]
  have "loose_null VNull" by (simp add: loose_null_def)
  with t have one: "deepEqual (Suc 0) objects_heap (comparators new_engine) (VRef 0) VNull {}
      = Some (Inr False, {0})"
    by blast
  from t fresh b nan same
  have two: "\<exists>vis'. deepEqual (Suc (length objects_heap) + 0) objects_heap (comparators new_engine)
         (VRef 0) (VRef 1) {} = Some (Inr True, vis')"
    by blast
  from a one nan two show ?thesis by blast
qed

section \<open>Trees: the guard never answers\<close>

lemma every_tree:
  assumes step: "\<And>x v r v'. x \<in> set items \<Longrightarrow> set (A x) \<inter> v = {} \<Longrightarrow> f x v = Some (r, v') \<Longrightarrow>
      r = Inr (P x) \<and> v' \<subseteq> v \<union> set (A x)"
    and dis: "distinct (concat (map A items))"
    and vis: "set (concat (map A items)) \<inter> vis = {}"
    and run: "every f items vis = Some (res, vis')"
  shows "res = Inr (list_all P items) \<and> vis' \<subseteq> vis \<union> set (concat (map A items))"
  using assms
proof (induction items arbitrary: vis)
  case Nil
  then show ?case by simp
next
  case (Cons x xs)
  from Cons.prems(4) obtain r1 v1 where fx: "f x vis = Some (r1, v1)"
    by (cases "f x vis") auto
  from Cons.prems(3) have d: "set (A x) \<inter> vis = {}" by auto
  have mem: "x \<in> set (x # xs)" by simp
  from Cons.prems(1) [OF mem d fx] have r1: "r1 = Inr (P x)" and v1: "v1 \<subseteq> vis \<union> set (A x)"
    by blast+
  show ?case
  proof (cases "P x")
    case False
    with r1 have "f x vis = Some (Inr False, v1)" using fx by simp
    with Cons.prems(4) have "res = Inr False" "vis' = v1" by simp_all
    moreover from False have "\<not> list_all P (x # xs)" by simp
    moreover from v1 have "v1 \<subseteq> vis \<union> set (concat (map A (x # xs)))" by auto
    ultimately show ?thesis by simp
  next
    case True
    with r1 have "f x vis = Some (Inr True, v1)" using fx by simp
    with Cons.prems(4) have rest: "every f xs v1 = Some (res, vis')" by simp
    have step': "\<And>y v r v'. y \<in> set xs \<Longrightarrow> set (A y) \<inter> v = {} \<Longrightarrow> f y v = Some (r, v') \<Longrightarrow>
      r = Inr (P y) \<and> v' \<subseteq> v \<union> set (A y)"
    proof -
      fix y v r v'
      assume "y \<in> set xs" and d: "set (A y) \<inter> v = {}" and c: "f y v = Some (r, v')"
      then have "y \<in> set (x # xs)" by simp
      from Cons.prems(1) [OF this d c] show "r = Inr (P y) \<and> v' \<subseteq> v \<union> set (A y)" .
    qed
    from Cons.prems(2) have dis': "distinct (concat (map A xs))"
      and apart: "set (A x) \<inter> set (concat (map A xs)) = {}"
      by simp_all
    from Cons.prems(3) have "set (concat (map A xs)) \<inter> vis = {}" by auto
    with v1 apart have vis1: "set (concat (map A xs)) \<inter> v1 = {}" by blast
    from Cons.IH [OF step' dis' vis1 rest]
    have "res = Inr (list_all P xs)" and sub: "vis' \<subseteq> v1 \<union> set (concat (map A xs))" by blast+
    moreover from True have "list_all P (x # xs) = list_all P xs" by simp
    moreover from sub v1 have "vis' \<subseteq> vis \<union> set (concat (map A (x # xs)))" by auto
    ultimately show ?thesis by simp
  qed
qed





lemma distinct_concat_member:
  "distinct (concat (map A items)) \<Longrightarrow> x \<in> set items \<Longrightarrow> distinct (A x)"
  by (induction items) auto

lemma map_case_fst: "map (\<lambda>(item, index). g item) zs = map g (map fst zs)"
  by (induction zs) auto


lemma addresses_below_ref:
  "addresses_below (Suc n) h (VRef r) = r # concat (map (addresses_below n h) (children h (VRef r)))"
  by simp

lemma addresses_below_prim: "(\<And>r. a \<noteq> VRef r) \<Longrightarrow> addresses_below n h a = []"
  by (cases n; cases a) auto

lemma unguarded_primitive:
  "(\<And>r. a \<noteq> VRef r) \<Longrightarrow> unguarded_equal (Suc n) h a b = strict_equal a b"
  by (simp add: shape_Primitive [THEN iffD2])

lemma unguarded_array:
  "heap_at h r = JSArray xs \<Longrightarrow>
   unguarded_equal (Suc n) h (VRef r) b \<longleftrightarrow>
     isArray h b \<and> length xs = length (elements h b) \<and>
     list_all (\<lambda>(item, index). unguarded_equal n h item (index_get (elements h b) index))
       (entries xs)"
  by (simp add: shape_of_def elements_array)

lemma unguarded_object:
  "heap_at h r = JSObject ps \<Longrightarrow>
   unguarded_equal (Suc n) h (VRef r) b \<longleftrightarrow>
     typeof b = T_object \<and> \<not> loose_null b \<and> \<not> isArray h b \<and>
     length ps = length (object_keys h b) \<and>
     list_all (\<lambda>key. key \<in> set (object_keys h b) \<and>
                 unguarded_equal n h (property_get h (VRef r) key) (property_get h b key))
       (map fst ps)"
  by (simp add: shape_of_def object_keys_def properties_object)

declare unguarded_equal.simps(2) [simp del]
declare addresses_below.simps(2) [simp del]

lemma deepEqual_tree:
  "distinct (addresses_below n h a) \<Longrightarrow> set (addresses_below n h a) \<inter> vis = {} \<Longrightarrow>
   deepEqual n h (comparators new_engine) a b vis = Some (res, vis') \<Longrightarrow>
   res = Inr (unguarded_equal n h a b) \<and> vis' \<subseteq> vis \<union> set (addresses_below n h a)"
proof (induction n arbitrary: a b vis res vis')
  case 0
  then show ?case by simp
next
  case (Suc n)
  let ?B = "comparators new_engine"
  show ?case
  proof (cases "\<exists>r. a = VRef r")
    case False
    then have prim: "\<And>r. a \<noteq> VRef r" by simp
    from Suc.prems(3) show ?thesis
      by (auto simp: deepEqual_primitive [OF prim] unguarded_primitive [OF prim])
  next
    case True
    then obtain r where a: "a = VRef r" by blast
    let ?A = "addresses_below n h"
    let ?below = "concat (map ?A (children h (VRef r)))"
    from Suc.prems(1,2) have r: "r \<notin> vis" and rb: "r \<notin> set ?below"
      and dis: "distinct ?below" and apart: "set ?below \<inter> insert r vis = {}"
      by (auto simp: a addresses_below_ref)
    have all: "set (addresses_below (Suc n) h a) = insert r (set ?below)"
      by (simp add: a addresses_below_ref)
    have goal: "res = Inr (unguarded_equal (Suc n) h a b) \<and> vis' \<subseteq> vis \<union> insert r (set ?below)"
    proof (cases "heap_at h r")
      case (JSArray xs)
      have ch: "children h (VRef r) = map fst (entries xs)" using JSArray by (simp add: children_def)
      let ?ys = "elements h b"
      let ?items = "entries xs"
      let ?f = "\<lambda>(item, index). deepEqual n h ?B item (index_get ?ys index)"
      let ?P = "\<lambda>(item, index). unguarded_equal n h item (index_get ?ys index)"
      let ?Ai = "\<lambda>(item, index). ?A item"
      have below: "concat (map ?Ai ?items) = ?below"
        by (simp only: map_case_fst ch)
      show ?thesis
      proof (cases "\<not> isArray h b \<or> length xs \<noteq> length ?ys")
        case True
        with Suc.prems(3) have "res = Inr False" "vis' = insert r vis"
          by (auto simp: a deepEqual_array [OF JSArray r] ArrayComparator_compare_def
              elements_array [OF JSArray])
        moreover from True have "\<not> unguarded_equal (Suc n) h (VRef r) b"
          by (auto simp: unguarded_array [OF JSArray])
        ultimately show ?thesis by (auto simp: a)
      next
        case False
        with Suc.prems(3) have run: "every ?f ?items (insert r vis) = Some (res, vis')"
          by (simp add: a deepEqual_array [OF JSArray r] ArrayComparator_compare_def
              elements_array [OF JSArray])
        have "res = Inr (list_all ?P ?items) \<and> vis' \<subseteq> insert r vis \<union> set (concat (map ?Ai ?items))"
        proof (rule every_tree [where f = ?f and A = ?Ai and P = ?P, OF _ _ _ run])
          show "distinct (concat (map ?Ai ?items))" using dis by (simp only: below)
          show "set (concat (map ?Ai ?items)) \<inter> insert r vis = {}" using apart by (simp only: below)
          fix x v r' v'
          assume x: "x \<in> set ?items" and d: "set (?Ai x) \<inter> v = {}" and c: "?f x v = Some (r', v')"
          obtain item index where xi: "x = (item, index)" by (cases x)
          from distinct_concat_member [of ?Ai ?items x] dis x
          have "distinct (?Ai x)" by (simp only: below)
          with xi d c Suc.IH [of item v "index_get ?ys index" r' v']
          show "r' = Inr (?P x) \<and> v' \<subseteq> v \<union> set (?Ai x)" by simp
        qed
        then have "res = Inr (list_all ?P ?items)" and "vis' \<subseteq> insert r vis \<union> set ?below"
          by (simp_all only: below)
        moreover have "unguarded_equal (Suc n) h (VRef r) b = list_all ?P ?items"
          using False by (simp add: unguarded_array [OF JSArray])
        ultimately show ?thesis by (auto simp: a)
      qed
    next
      case (JSObject ps)
      have ch: "children h (VRef r) = map (property_get h (VRef r)) (map fst ps)"
        using JSObject by (simp add: children_def)
      have keys: "object_keys h (VRef r) = map fst ps"
        using JSObject by (simp add: object_keys_def properties_object)
      let ?kb = "object_keys h b"
      let ?f = "\<lambda>key w. if key \<in> set ?kb
          then deepEqual n h ?B (property_get h (VRef r) key) (property_get h b key) w
          else Some (Inr False, w)"
      let ?P = "\<lambda>key. key \<in> set ?kb \<and>
          unguarded_equal n h (property_get h (VRef r) key) (property_get h b key)"
      let ?Ai = "\<lambda>key. ?A (property_get h (VRef r) key)"
      have below: "concat (map ?Ai (map fst ps)) = ?below"
        by (simp add: ch comp_def)
      show ?thesis
      proof (cases "typeof b \<noteq> T_object \<or> loose_null b \<or> isArray h b \<or> length ps \<noteq> length ?kb")
        case True
        with Suc.prems(3) have "res = Inr False" "vis' = insert r vis"
          by (simp_all add: a deepEqual_object [OF JSObject r] ObjectComparator_compare_object [OF JSObject])
        moreover from True have "\<not> unguarded_equal (Suc n) h (VRef r) b"
          by (auto simp: unguarded_object [OF JSObject])
        ultimately show ?thesis by (auto simp: a)
      next
        case False
        with Suc.prems(3) have run: "every ?f (map fst ps) (insert r vis) = Some (res, vis')"
          by (simp add: a deepEqual_object [OF JSObject r] ObjectComparator_compare_object [OF JSObject])
        have "res = Inr (list_all ?P (map fst ps))
            \<and> vis' \<subseteq> insert r vis \<union> set (concat (map ?Ai (map fst ps)))"
        proof (rule every_tree [where f = ?f and A = ?Ai and P = ?P, OF _ _ _ run])
          show "distinct (concat (map ?Ai (map fst ps)))" using dis by (simp only: below)
          show "set (concat (map ?Ai (map fst ps))) \<inter> insert r vis = {}"
            using apart by (simp only: below)
          fix key v r' v'
          assume x: "key \<in> set (map fst ps)" and d: "set (?Ai key) \<inter> v = {}"
            and c: "?f key v = Some (r', v')"
          from distinct_concat_member [of ?Ai "map fst ps" key] dis x
          have dk: "distinct (?Ai key)" by (simp only: below)
          show "r' = Inr (?P key) \<and> v' \<subseteq> v \<union> set (?Ai key)"
          proof (cases "key \<in> set ?kb")
            case True
            with c have "deepEqual n h ?B (property_get h (VRef r) key) (property_get h b key) v
                = Some (r', v')" by simp
            from Suc.IH [OF dk d this] True show ?thesis by simp
          next
            case False
            with c show ?thesis by auto
          qed
        qed
        then have "res = Inr (list_all ?P (map fst ps))"
          and "vis' \<subseteq> insert r vis \<union> set ?below"
          by (simp_all only: below)
        moreover have "unguarded_equal (Suc n) h (VRef r) b = list_all ?P (map fst ps)"
          using False by (simp add: unguarded_object [OF JSObject])
        ultimately show ?thesis by (auto simp: a)
      qed
    qed
    then show ?thesis by (simp only: all)
  qed
qed

section \<open>Symmetry\<close>

lemma strict_equal_sym: "strict_equal a b = strict_equal b a"
  by (auto simp: strict_equal_def)

lemma list_all_entries:
  "list_all (\<lambda>(item, index). Q item index) (entries xs) \<longleftrightarrow>
     (\<forall>i<length xs. \<forall>item. xs ! i = Some item \<longrightarrow> Q item i)"
  by (auto simp: list_all_iff in_entries)

lemma dense_nth: "None \<notin> set xs \<Longrightarrow> i < length xs \<Longrightarrow> xs ! i = Some (the (xs ! i))"
proof -
  assume "None \<notin> set xs" "i < length xs"
  then have "xs ! i \<noteq> None" using nth_mem [of i xs] by metis
  then show ?thesis by simp
qed

lemma dense_child:
  "dense_below (Suc n) h v \<Longrightarrow> x \<in> set (children h v) \<Longrightarrow> dense_below n h x"
  by (cases v) (auto simp: dense_below_def addresses_below_ref list_all_iff children_def)

lemma dense_array:
  "dense_below (Suc n) h (VRef r) \<Longrightarrow> heap_at h r = JSArray xs \<Longrightarrow> None \<notin> set xs"
  by (simp add: dense_below_def addresses_below_ref)

lemma distinct_keys_at: "distinct_keys h \<Longrightarrow> heap_at h r = JSObject ps \<Longrightarrow> distinct (map fst ps)"
proof (cases "r < length h")
  case True
  assume "distinct_keys h" "heap_at h r = JSObject ps"
  with True have "JSObject ps \<in> set h" using nth_mem [of r h] by (simp add: heap_at_def)
  with \<open>distinct_keys h\<close> show ?thesis
    by (auto simp: distinct_keys_def list_all_iff)
next
  case False
  assume "heap_at h r = JSObject ps"
  with False show ?thesis by (simp add: heap_at_def)
qed

lemma same_key_sets:
  assumes "distinct ks" "distinct ls" "length ks = length ls" "set ks \<subseteq> set ls"
  shows "set ks = set ls"
proof (rule card_subset_eq)
  show "finite (set ls)" by simp
  show "set ks \<subseteq> set ls" by fact
  from assms(1-3) show "card (set ks) = card (set ls)" by (simp add: distinct_card)
qed

lemma shape_Mapping:
  "shape_of h v = Mapping \<longleftrightarrow> (\<exists>r ps. v = VRef r \<and> heap_at h r = JSObject ps)"
  by (cases v) (auto simp: shape_of_def split: obj.splits)

lemma shape_Sequence_ref:
  "shape_of h v = Sequence \<longleftrightarrow> (\<exists>r xs. v = VRef r \<and> heap_at h r = JSArray xs)"
  by (cases v) (auto simp: shape_of_def split: obj.splits)

lemma unguarded_sym:
  "distinct_keys h \<Longrightarrow> dense_below n h a \<Longrightarrow> dense_below n h b \<Longrightarrow>
   unguarded_equal n h a b = unguarded_equal n h b a"
proof (induction n arbitrary: a b)
  case 0
  then show ?case by simp
next
  case (Suc n)
  have sw: "unguarded_equal n h x y \<longleftrightarrow> unguarded_equal n h y x"
    if "x \<in> set (children h a)" "y \<in> set (children h b)" for x y
    using that Suc.prems by (intro Suc.IH dense_child [of n h]) auto
  consider (prim) "\<And>r. a \<noteq> VRef r" | (arr) r xs where "a = VRef r" "heap_at h r = JSArray xs"
    | (obj) r ps where "a = VRef r" "heap_at h r = JSObject ps"
    by (cases a; cases "heap_at h (case a of VRef r \<Rightarrow> r | _ \<Rightarrow> 0)") auto
  then show ?case
  proof cases
    case prim
    consider (prim') "\<And>r. b \<noteq> VRef r" | (arr') q ys where "b = VRef q" "heap_at h q = JSArray ys"
      | (obj') q qs where "b = VRef q" "heap_at h q = JSObject qs"
      by (cases b; cases "heap_at h (case b of VRef r \<Rightarrow> r | _ \<Rightarrow> 0)") auto
    then show ?thesis
    proof cases
      case prim'
      with prim show ?thesis
        by (simp add: unguarded_primitive strict_equal_sym)
    next
      case arr'
      with prim have "\<not> isArray h a" "\<not> strict_equal a b"
        by (auto simp: isArray_def strict_equal_def split: val.splits)
      with prim arr' show ?thesis
        by (simp add: unguarded_primitive unguarded_array)
    next
      case obj'
      with prim have "typeof a \<noteq> T_object \<or> loose_null a" "\<not> strict_equal a b"
        by (cases a; auto simp: loose_null_def strict_equal_def)+
      with prim obj' show ?thesis
        by (auto simp: unguarded_primitive unguarded_object)
    qed
  next
    case arr
    consider (prim') "\<And>r. b \<noteq> VRef r" | (arr') q ys where "b = VRef q" "heap_at h q = JSArray ys"
      | (obj') q qs where "b = VRef q" "heap_at h q = JSObject qs"
      by (cases b; cases "heap_at h (case b of VRef r \<Rightarrow> r | _ \<Rightarrow> 0)") auto
    then show ?thesis
    proof cases
      case prim'
      then have "\<not> isArray h b" "\<not> strict_equal b a"
        using arr by (auto simp: isArray_def strict_equal_def split: val.splits)
      with prim' arr show ?thesis
        by (simp add: unguarded_primitive unguarded_array)
    next
      case arr'
      from Suc.prems(2) arr have dx: "None \<notin> set xs" by (auto dest: dense_array)
      from Suc.prems(3) arr' have dy: "None \<notin> set ys" by (auto dest: dense_array)
      have cx: "the (xs ! i) \<in> set (children h a)" if "i < length xs" for i
      proof -
        from dense_nth [OF dx that] that have "(the (xs ! i), i) \<in> set (entries xs)"
          by (simp add: in_entries)
        then have "fst (the (xs ! i), i) \<in> fst ` set (entries xs)" by (rule imageI)
        with arr show ?thesis by (simp add: children_def)
      qed
      have cy: "the (ys ! i) \<in> set (children h b)" if "i < length ys" for i
      proof -
        from dense_nth [OF dy that] that have "(the (ys ! i), i) \<in> set (entries ys)"
          by (simp add: in_entries)
        then have "fst (the (ys ! i), i) \<in> fst ` set (entries ys)" by (rule imageI)
        with arr' show ?thesis by (simp add: children_def)
      qed
      have all: "(\<forall>i<length us. \<forall>item. us ! i = Some item \<longrightarrow>
            unguarded_equal n h item (index_get vs i))
          \<longleftrightarrow> (\<forall>i<length us. unguarded_equal n h (the (us ! i)) (the (vs ! i)))"
        if "None \<notin> set us" "None \<notin> set vs" "length us = length vs" for us vs
      proof -
        have "index_get vs i = the (vs ! i)" if "i < length us" for i
          using dense_nth [OF \<open>None \<notin> set vs\<close>, of i] that \<open>length us = length vs\<close>
          by (cases "vs ! i") (simp_all add: index_get_def)
        moreover have "us ! i = Some item \<longleftrightarrow> item = the (us ! i)" if "i < length us" for i item
          using dense_nth [OF \<open>None \<notin> set us\<close> that] by auto
        ultimately show ?thesis by auto
      qed
      have "unguarded_equal (Suc n) h a b \<longleftrightarrow>
          length xs = length ys \<and>
          (\<forall>i<length xs. \<forall>item. xs ! i = Some item \<longrightarrow> unguarded_equal n h item (index_get ys i))"
        using arr arr'
        by (simp add: unguarded_array [OF arr(2)] isArray_ref elements_array list_all_entries)
      also have "\<dots> \<longleftrightarrow>
          length xs = length ys \<and> (\<forall>i<length xs. unguarded_equal n h (the (xs ! i)) (the (ys ! i)))"
        using all [OF dx dy] by auto
      also have "\<dots> \<longleftrightarrow>
          length ys = length xs \<and> (\<forall>i<length ys. unguarded_equal n h (the (ys ! i)) (the (xs ! i)))"
      proof -
        have "unguarded_equal n h (the (xs ! i)) (the (ys ! i)) \<longleftrightarrow>
            unguarded_equal n h (the (ys ! i)) (the (xs ! i))"
          if "i < length xs" "length xs = length ys" for i
          using that by (intro sw cx cy) simp_all
        then show ?thesis by (metis (no_types, lifting))
      qed
      also have "\<dots> \<longleftrightarrow>
          length ys = length xs \<and>
          (\<forall>i<length ys. \<forall>item. ys ! i = Some item \<longrightarrow> unguarded_equal n h item (index_get xs i))"
        using all [OF dy dx] by auto
      also have "\<dots> \<longleftrightarrow> unguarded_equal (Suc n) h b a"
        using arr arr'
        by (simp add: unguarded_array [OF arr'(2)] isArray_ref elements_array list_all_entries)
      finally show ?thesis .
    next
      case obj'
      with arr show ?thesis
        by (simp add: unguarded_array [OF arr(2)] unguarded_object [OF obj'(2)] isArray_ref)
    qed
  next
    case obj
    consider (prim') "\<And>r. b \<noteq> VRef r" | (arr') q ys where "b = VRef q" "heap_at h q = JSArray ys"
      | (obj') q qs where "b = VRef q" "heap_at h q = JSObject qs"
      by (cases b; cases "heap_at h (case b of VRef r \<Rightarrow> r | _ \<Rightarrow> 0)") auto
    then show ?thesis
    proof cases
      case prim'
      then have "typeof b \<noteq> T_object \<or> loose_null b" "\<not> strict_equal b a"
        using obj by (cases b; auto simp: loose_null_def strict_equal_def)+
      with prim' obj show ?thesis
        by (auto simp: unguarded_primitive unguarded_object)
    next
      case arr'
      with obj show ?thesis
        by (simp add: unguarded_array [OF arr'(2)] unguarded_object [OF obj(2)] isArray_ref)
    next
      case obj'
      have dp: "distinct (map fst ps)" and dq: "distinct (map fst qs)"
        using distinct_keys_at [OF Suc.prems(1)] obj(2) obj'(2) by blast+
      have kb: "object_keys h b = map fst qs" and ka: "object_keys h a = map fst ps"
        using obj obj' by (simp_all add: object_keys_def properties_object)
      have shape: "typeof a = T_object" "\<not> loose_null a" "\<not> isArray h a"
        "typeof b = T_object" "\<not> loose_null b" "\<not> isArray h b"
        using obj obj' by (simp_all add: loose_null_def isArray_ref)
      have ca: "property_get h a key \<in> set (children h a)" if "key \<in> set (map fst ps)" for key
        using that keys_children [OF shape(3), of key] by (simp only: ka)
      have cb: "property_get h b key \<in> set (children h b)" if "key \<in> set (map fst qs)" for key
        using that keys_children [OF shape(6), of key] by (simp only: kb)
      have "unguarded_equal (Suc n) h a b \<longleftrightarrow>
          length ps = length qs \<and>
          (\<forall>key\<in>set (map fst ps). key \<in> set (map fst qs) \<and>
             unguarded_equal n h (property_get h a key) (property_get h b key))"
        using shape kb by (simp add: obj(1) unguarded_object [OF obj(2)] list_all_iff)
      also have "\<dots> \<longleftrightarrow>
          length ps = length qs \<and> set (map fst ps) = set (map fst qs) \<and>
          (\<forall>key\<in>set (map fst ps).
             unguarded_equal n h (property_get h a key) (property_get h b key))"
        using same_key_sets [OF dp dq] by auto
      also have "\<dots> \<longleftrightarrow>
          length qs = length ps \<and> set (map fst qs) = set (map fst ps) \<and>
          (\<forall>key\<in>set (map fst qs).
             unguarded_equal n h (property_get h b key) (property_get h a key))"
      proof -
        have "unguarded_equal n h (property_get h a key) (property_get h b key) \<longleftrightarrow>
            unguarded_equal n h (property_get h b key) (property_get h a key)"
          if "key \<in> set (map fst ps)" "set (map fst ps) = set (map fst qs)" for key
          using that by (intro sw ca cb) simp_all
        then show ?thesis by (metis (no_types, lifting))
      qed
      also have "\<dots> \<longleftrightarrow>
          length qs = length ps \<and>
          (\<forall>key\<in>set (map fst qs). key \<in> set (map fst ps) \<and>
             unguarded_equal n h (property_get h b key) (property_get h a key))"
        using same_key_sets [OF dq dp] by auto
      also have "\<dots> \<longleftrightarrow> unguarded_equal (Suc n) h b a"
        using shape ka by (simp add: obj'(1) unguarded_object [OF obj'(2)] list_all_iff)
      finally show ?thesis .
    qed
  qed
qed

text \<open>
  Claim C9, amended.  For values \<open>a\<close> and \<open>b\<close> that are tree-shaped (acyclic, and no
  object reachable along two different paths) and in which no array has a hole, of
  matching shape or not, \<^verbatim>\<open>deepEqual(a, b)\<close> on a new engine and \<^verbatim>\<open>deepEqual(b, a)\<close> on a
  new engine both return, with the same boolean.
\<close>

theorem symmetric_on_trees:
  "tree_shaped h a \<and> tree_shaped h b \<and> dense h a \<and> dense h b \<and> distinct_keys h \<longrightarrow>
     (\<exists>res va vb.
        deepEqual (Suc (length h) + k) h (comparators new_engine) a b (visited new_engine)
          = Some (Inr res, va)
        \<and> deepEqual (Suc (length h) + k) h (comparators new_engine) b a (visited new_engine)
          = Some (Inr res, vb))"
proof (intro impI; elim conjE)
  let ?B = "comparators new_engine"
  let ?n = "Suc (length h)"
  assume a: "tree_shaped h a" and b: "tree_shaped h b" and keys: "distinct_keys h"
    and da: "dense h a" and db: "dense h b"
  have one: "\<exists>w. deepEqual ?n h ?B x y {} = Some (Inr (unguarded_equal ?n h x y), w)"
    if "tree_shaped h x" for x y
  proof -
    from deepEqual_total [of h 0 ?B x y "{}"]
    obtain res w where run: "deepEqual ?n h ?B x y {} = Some (res, w)" by auto
    from that have "distinct (addresses_below ?n h x)" by (simp add: tree_shaped_def)
    from deepEqual_tree [OF this _ run] have "res = Inr (unguarded_equal ?n h x y)" by simp
    with run show ?thesis by blast
  qed
  from da db have sym: "unguarded_equal ?n h b a = unguarded_equal ?n h a b"
    by (intro unguarded_sym [OF keys]) (simp_all add: dense_def)
  from one [OF a, of b] obtain va where
    ab: "deepEqual ?n h ?B a b {} = Some (Inr (unguarded_equal ?n h a b), va)" by blast
  from one [OF b, of a] obtain vb where
    "deepEqual ?n h ?B b a {} = Some (Inr (unguarded_equal ?n h b a), vb)" by blast
  then have ba: "deepEqual ?n h ?B b a {} = Some (Inr (unguarded_equal ?n h a b), vb)"
    by (simp only: sym)
  from deepEqual_fuel [OF ab, of k] deepEqual_fuel [OF ba, of k]
  show "\<exists>res va vb.
        deepEqual (?n + k) h ?B a b (visited new_engine) = Some (Inr res, va)
        \<and> deepEqual (?n + k) h ?B b a (visited new_engine) = Some (Inr res, vb)"
    by (simp add: new_engine_def)
qed

theorem symmetric_on_trees_witness:
  "tree_shaped arrays_heap (VRef 0) \<and> tree_shaped arrays_heap (VRef 2)
   \<and> dense arrays_heap (VRef 0) \<and> dense arrays_heap (VRef 2) \<and> distinct_keys arrays_heap
   \<and> (\<exists>res va vb.
        deepEqual (Suc (length arrays_heap) + 0) arrays_heap (comparators new_engine)
          (VRef 0) (VRef 2) (visited new_engine) = Some (Inr res, va)
        \<and> deepEqual (Suc (length arrays_heap) + 0) arrays_heap (comparators new_engine)
          (VRef 2) (VRef 0) (visited new_engine) = Some (Inr res, vb))"
proof -
  have t: "tree_shaped arrays_heap (VRef 0)" "tree_shaped arrays_heap (VRef 2)"
    by (simp_all add: tree_shaped_def arrays_heap_def addresses_below.simps(2) children_def
        entries_def shape_defs)
  have d: "dense arrays_heap (VRef 0)" "dense arrays_heap (VRef 2)"
    by (simp_all add: dense_def dense_below_def arrays_heap_def addresses_below.simps(2)
        children_def entries_def shape_defs)
  have k: "distinct_keys arrays_heap"
    by (simp add: distinct_keys_def arrays_heap_def)
  from symmetric_on_trees [of arrays_heap "VRef 0" "VRef 2" 0] t d k show ?thesis by blast
qed

text \<open>
  The claim as stated fails on \<^verbatim>\<open>const s = [1]; a = [s, s]; b = [[1], [1]]\<close>: both are
  acyclic sequences, \<^verbatim>\<open>deepEqual(a, b)\<close> on a new engine is \<^verbatim>\<open>false\<close> (the second \<open>s\<close> is
  answered by the guard) and \<^verbatim>\<open>deepEqual(b, a)\<close> on a new engine is \<^verbatim>\<open>true\<close>.  It also
  fails on the trees \<^verbatim>\<open>a = new Array(1)\<close> and \<^verbatim>\<open>b = [5]\<close>: \<^verbatim>\<open>deepEqual(a, b)\<close> is \<^verbatim>\<open>true\<close> (the
  hole of \<open>a\<close> is skipped) and \<^verbatim>\<open>deepEqual(b, a)\<close> is \<^verbatim>\<open>false\<close> (\<open>5\<close> is compared with
  \<^verbatim>\<open>undefined\<close>).
\<close>

theorem symmetry_counterexample:
  "shape_of shared_heap (VRef 1) = shape_of shared_heap (VRef 4)
   \<and> map_option fst (deepEqual (Suc (Suc (Suc 0))) shared_heap (comparators new_engine)
        (VRef 1) (VRef 4) (visited new_engine)) = Some (Inr False)
   \<and> map_option fst (deepEqual (Suc (Suc (Suc 0))) shared_heap (comparators new_engine)
        (VRef 4) (VRef 1) (visited new_engine)) = Some (Inr True)
   \<and> shape_of sparse_heap (VRef 0) = shape_of sparse_heap (VRef 1)
   \<and> tree_shaped sparse_heap (VRef 0) \<and> tree_shaped sparse_heap (VRef 1)
   \<and> map_option fst (deepEqual (Suc (Suc 0)) sparse_heap (comparators new_engine)
        (VRef 0) (VRef 1) (visited new_engine)) = Some (Inr True)
   \<and> map_option fst (deepEqual (Suc (Suc 0)) sparse_heap (comparators new_engine)
        (VRef 1) (VRef 0) (visited new_engine)) = Some (Inr False)"
  by (simp add: run_defs shared_heap_def sparse_heap_def shape_of_def entries_def tree_shaped_def
      addresses_below.simps(2) children_def)

end
